theory Spec2Isabelle
  imports Complex_Main "HOL-Library.Word" "HOL-Library.Log_Nat" "HOL-Library.Char_ord"
    "HOL-Library.List_Lexorder" "HOL-Library.Product_Lexorder"
begin

section \<open>Conventions\<close>

text \<open>
  The development embeds the server side of the zone occupancy monitor: the row store and
  event logger (database.ts), the image primitives (image-processor.ts), the detection
  modes (detection-modes.ts), the round-robin scheduler (round-robin.ts) and the occupancy
  writers of index.ts.

  JavaScript numbers that hold counts, areas, pixel coordinates, row ids and clock readings
  are integers in the program and are modelled by \<open>int\<close> and \<open>nat\<close>. A \<open>Date\<close> is modelled
  by its reading in milliseconds (\<open>getTime()\<close>); an ISO string made from a \<open>Date\<close> is modelled
  by the same reading. An optional field (\<open>undefined\<close> or \<open>null\<close>) is an \<open>option\<close>.
  Module-level variables become fields of explicit state records that every operation
  takes and returns.
\<close>

type_synonym point = "rat \<times> rat"

text \<open>\<open>Math.round (a / b)\<close> for an integer \<open>a\<close> and a positive integer \<open>b\<close>: the nearest
  integer, halves rounded towards plus infinity.\<close>

definition js_round_div :: "int \<Rightarrow> int \<Rightarrow> int" where
  "js_round_div a b = (2 * a + b) div (2 * b)"

text \<open>\<open>v || d\<close> on an optional number: the default replaces \<open>undefined\<close> and \<open>0\<close>.\<close>

definition num_or :: "int option \<Rightarrow> int \<Rightarrow> int" where
  "num_or v d = (case v of None \<Rightarrow> d | Some n \<Rightarrow> if n = 0 then d else n)"

text \<open>\<open>s || null\<close> on an optional string: the empty string is falsy.\<close>

definition str_or_null :: "string option \<Rightarrow> string option" where
  "str_or_null v = (case v of None \<Rightarrow> None | Some s \<Rightarrow> if s = [] then None else Some s)"

section \<open>Images and blobs (image-processor.ts)\<close>

text \<open>
  A \<open>Buffer\<close> of raw pixels is a list of bytes. An encoded image (JPEG or PNG) is modelled by
  what the codec \<open>sharp\<close> makes of it: \<open>toGrayscale\<close> either throws or yields a single-channel
  raster, and the PNG made from a raster decodes to that raster.
\<close>

type_synonym byte = "8 word"

record gray =
  data :: "byte list"
  width :: nat
  height :: nat

datatype image = Undecodable | Encoded gray

datatype js_error = Sharp_error | Dimension_mismatch | Never_returns | Hailo_error

definition toGrayscale :: "image \<Rightarrow> js_error + gray" where
  "toGrayscale img = (case img of Undecodable \<Rightarrow> Inl Sharp_error | Encoded g \<Rightarrow> Inr g)"

text \<open>Reading a typed array: \<open>undefined\<close> out of range.\<close>

definition rd :: "'a list \<Rightarrow> nat \<Rightarrow> 'a option" where
  "rd xs i = (if i < length xs then Some (xs ! i) else None)"

record blob =
  blob_id :: int
  area :: int
  centroid :: "int \<times> int"
  boundingBox :: "int \<times> int \<times> int \<times> int"

subsection \<open>Difference, morphology, masks\<close>

definition computeDifference :: "byte list \<Rightarrow> byte list \<Rightarrow> int \<Rightarrow> byte list" where
  "computeDifference current background threshold =
     map (\<lambda>i. case rd background i of
                 None \<Rightarrow> 0
               | Some b \<Rightarrow> if \<bar>uint (current ! i) - uint b\<bar> > threshold then 255 else 0)
       [0..<length current]"

text \<open>The nine offsets \<open>(dx, dy)\<close> of the 3 by 3 neighbourhood, \<open>dy\<close> in the outer loop.\<close>

definition offsets3 :: "(int \<times> int) list" where
  "offsets3 = concat (map (\<lambda>dy. map (\<lambda>dx. (dx, dy)) [-1, 0, 1]) [-1, 0, 1])"

definition neighbour :: "byte list \<Rightarrow> nat \<Rightarrow> nat \<Rightarrow> nat \<Rightarrow> int \<times> int \<Rightarrow> byte option" where
  "neighbour result w x y d = rd result (nat ((int y + snd d) * int w + (int x + fst d)))"

definition allWhite :: "byte list \<Rightarrow> nat \<Rightarrow> nat \<Rightarrow> nat \<Rightarrow> bool" where
  "allWhite result w x y = list_all (\<lambda>d. neighbour result w x y d \<noteq> Some 0) offsets3"

definition anyWhite :: "byte list \<Rightarrow> nat \<Rightarrow> nat \<Rightarrow> nat \<Rightarrow> bool" where
  "anyWhite result w x y = list_ex (\<lambda>d. neighbour result w x y d = Some 255) offsets3"

text \<open>One erosion and one dilation pass: a fresh zero buffer, written at the pixels off
  the one-pixel border. A write past the end of a typed array does nothing.\<close>

definition erode_pass :: "nat \<Rightarrow> nat \<Rightarrow> byte list \<Rightarrow> byte list" where
  "erode_pass w h result =
     foldl (\<lambda>eroded y.
        foldl (\<lambda>eroded x. eroded[y * w + x := (if allWhite result w x y then 255 else 0)])
          eroded [1..<w - 1])
       (replicate (length result) 0) [1..<h - 1]"

definition dilate_pass :: "nat \<Rightarrow> nat \<Rightarrow> byte list \<Rightarrow> byte list" where
  "dilate_pass w h result =
     foldl (\<lambda>dilated y.
        foldl (\<lambda>dilated x. dilated[y * w + x := (if anyWhite result w x y then 255 else 0)])
          dilated [1..<w - 1])
       (replicate (length result) 0) [1..<h - 1]"

fun erode_loop :: "nat \<Rightarrow> nat \<Rightarrow> nat \<Rightarrow> byte list \<Rightarrow> byte list" where
  "erode_loop w h 0 result = result"
| "erode_loop w h (Suc n) result = erode_loop w h n (erode_pass w h result)"

fun dilate_loop :: "nat \<Rightarrow> nat \<Rightarrow> nat \<Rightarrow> byte list \<Rightarrow> byte list" where
  "dilate_loop w h 0 result = result"
| "dilate_loop w h (Suc n) result = dilate_loop w h n (dilate_pass w h result)"

text \<open>\<open>morphologyClean\<close>: the parameter \<open>iterations\<close> defaults to 2 when it is not
  passed.\<close>

definition morphologyClean :: "byte list \<Rightarrow> nat \<Rightarrow> nat \<Rightarrow> nat option \<Rightarrow> byte list" where
  "morphologyClean dat w h iterations =
     (let n = (case iterations of None \<Rightarrow> 2 | Some k \<Rightarrow> k)
      in dilate_loop w h n (erode_loop w h n dat))"

subsection \<open>Erosion and dilation as operations of their own\<close>

text \<open>
  The two operations in the words of the specification, for comparison with the loops of
  \<open>morphologyClean\<close>: a 3 by 3 square structuring element on a binary image, where white
  is 255. A pixel off the one-pixel border becomes white under erosion iff all nine pixels
  around it are white, and under dilation iff one of them is; a pixel on the border becomes
  0 under erosion and stays as it is under dilation. Each operation is applied
  \<open>n\<close> times.
\<close>

definition interior :: "nat \<Rightarrow> nat \<Rightarrow> nat \<Rightarrow> bool" where
  "interior w h i = (1 \<le> i mod w \<and> i mod w < w - 1 \<and> 1 \<le> i div w \<and> i div w < h - 1)"

definition spec_erode1 :: "nat \<Rightarrow> nat \<Rightarrow> byte list \<Rightarrow> byte list" where
  "spec_erode1 w h bin =
     map (\<lambda>i. if interior w h i
               then (if list_all (\<lambda>d. neighbour bin w (i mod w) (i div w) d = Some 255) offsets3
                     then 255 else 0)
               else 0)
       [0..<length bin]"

definition spec_dilate1 :: "nat \<Rightarrow> nat \<Rightarrow> byte list \<Rightarrow> byte list" where
  "spec_dilate1 w h bin =
     map (\<lambda>i. if interior w h i
               then (if list_ex (\<lambda>d. neighbour bin w (i mod w) (i div w) d = Some 255) offsets3
                     then 255 else 0)
               else bin ! i)
       [0..<length bin]"

definition spec_erode :: "nat \<Rightarrow> nat \<Rightarrow> nat \<Rightarrow> byte list \<Rightarrow> byte list" where
  "spec_erode w h n = spec_erode1 w h ^^ n"

definition spec_dilate :: "nat \<Rightarrow> nat \<Rightarrow> nat \<Rightarrow> byte list \<Rightarrow> byte list" where
  "spec_dilate w h n = spec_dilate1 w h ^^ n"

text \<open>An image whose pixels on the one-pixel border are all 0.\<close>

definition zero_border :: "nat \<Rightarrow> nat \<Rightarrow> byte list \<Rightarrow> bool" where
  "zero_border w h r = (\<forall>i < length r. \<not> interior w h i \<longrightarrow> r ! i = 0)"

text \<open>Ray casting. Coordinates are exact rationals here, where the program computes in
  doubles; \<open>j\<close> trails \<open>i\<close> and starts at the last vertex. The division is only
  evaluated when the two ordinates differ.\<close>

definition isPointInPolygon :: "point \<Rightarrow> point list \<Rightarrow> bool" where
  "isPointInPolygon p polygon =
     (let n = length polygon in
      foldl (\<lambda>inside i.
          let j = (if i = 0 then n - 1 else i - 1);
              xi = fst (polygon ! i); yi = snd (polygon ! i);
              xj = fst (polygon ! j); yj = snd (polygon ! j)
          in if ((yi > snd p) \<noteq> (yj > snd p)) \<and>
                fst p < (xj - xi) * (snd p - yi) / (yj - yi) + xi
             then \<not> inside else inside)
        False [0..<n])"

definition createPolygonMask :: "point list \<Rightarrow> nat \<Rightarrow> nat \<Rightarrow> byte list" where
  "createPolygonMask polygon w h =
     foldl (\<lambda>msk y.
        foldl (\<lambda>msk x.
            if isPointInPolygon (of_nat x, of_nat y) polygon then msk[y * w + x := 255]
            else msk)
          msk [0..<w])
       (replicate (w * h) 0) [0..<h]"

definition applyMask :: "byte list \<Rightarrow> byte list \<Rightarrow> byte list" where
  "applyMask dat msk =
     map (\<lambda>i. if rd msk i = Some 255 then dat ! i else 0) [0..<length dat]"

subsection \<open>Connected components\<close>

record fill_stats =
  f_area :: int
  sumX :: int
  sumY :: int
  minX :: int
  minY :: int
  maxX :: int
  maxY :: int

text \<open>
  The \<open>while\<close> loop of \<open>floodFill\<close>, with the stack as a list whose head is the top:
  \<open>push (a, b, c, d)\<close> leaves \<open>d\<close> on top. Nothing in the loop itself bounds the number
  of rounds (with label 0 a pixel is never marked), so the loop is a partial function and
  \<open>None\<close> stands for a run that does not end.
\<close>

partial_function (option) floodFill_loop ::
  "byte list \<Rightarrow> int \<Rightarrow> int \<Rightarrow> int \<Rightarrow> (int \<times> int) list \<Rightarrow> int list \<Rightarrow> fill_stats \<Rightarrow>
   (int list \<times> fill_stats) option" where
  "floodFill_loop binaryData w h label stack labels st =
     (case stack of
        [] \<Rightarrow> Some (labels, st)
      | p # rest \<Rightarrow>
          (let x = fst p; y = snd p; idx = nat (y * w + x) in
           if x < 0 \<or> x \<ge> w \<or> y < 0 \<or> y \<ge> h
             then floodFill_loop binaryData w h label rest labels st
           else if rd binaryData idx = Some 0 \<or> rd labels idx \<noteq> Some 0
             then floodFill_loop binaryData w h label rest labels st
           else floodFill_loop binaryData w h label
                  ((x, y - 1) # (x, y + 1) # (x - 1, y) # (x + 1, y) # rest)
                  (labels[idx := label])
                  \<lparr> f_area = f_area st + 1, sumX = sumX st + x, sumY = sumY st + y,
                    minX = min (minX st) x, minY = min (minY st) y,
                    maxX = max (maxX st) x, maxY = max (maxY st) y \<rparr>))"

declare floodFill_loop.simps [code]

definition floodFill ::
  "byte list \<Rightarrow> int \<Rightarrow> int \<Rightarrow> int list \<Rightarrow> int \<Rightarrow> int \<Rightarrow> int \<Rightarrow> (int list \<times> fill_stats) option" where
  "floodFill binaryData w h labels startX startY label =
     floodFill_loop binaryData w h label [(startX, startY)] labels
       \<lparr> f_area = 0, sumX = 0, sumY = 0, minX = startX, minY = startY,
         maxX = startX, maxY = startY \<rparr>"

record scan_state =
  sc_labels :: "int list"
  currentLabel :: int
  sc_blobs :: "blob list"

definition stats_blob :: "int \<Rightarrow> fill_stats \<Rightarrow> blob" where
  "stats_blob label stats =
     \<lparr> blob_id = label, area = f_area stats,
       centroid = (js_round_div (sumX stats) (f_area stats),
                   js_round_div (sumY stats) (f_area stats)),
       boundingBox = (minX stats, minY stats,
                      maxX stats - minX stats + 1, maxY stats - minY stats + 1) \<rparr>"

text \<open>The body of the two scanning loops at pixel \<open>(x, y)\<close>.\<close>

definition scan_pixel ::
  "byte list \<Rightarrow> nat \<Rightarrow> nat \<Rightarrow> int \<Rightarrow> int \<Rightarrow> nat \<Rightarrow> scan_state \<Rightarrow> nat \<Rightarrow> scan_state option" where
  "scan_pixel binaryData w h minArea maxArea y s x =
     (let idx = y * w + x in
      if rd binaryData idx = Some 255 \<and> rd (sc_labels s) idx = Some 0 then
        (let label = currentLabel s + 1 in
         case floodFill binaryData (int w) (int h) (sc_labels s) (int x) (int y) label of
           None \<Rightarrow> None
         | Some (labels', stats) \<Rightarrow>
             Some \<lparr> sc_labels = labels', currentLabel = label,
                    sc_blobs = (if f_area stats \<ge> minArea \<and> f_area stats \<le> maxArea
                                then sc_blobs s @ [stats_blob label stats]
                                else sc_blobs s) \<rparr>)
      else Some s)"

text \<open>A \<open>for\<close> loop whose body may not return.\<close>

fun for_each :: "'a list \<Rightarrow> ('s \<Rightarrow> 'a \<Rightarrow> 's option) \<Rightarrow> 's \<Rightarrow> 's option" where
  "for_each [] f s = Some s"
| "for_each (x # xs) f s = (case f s x of None \<Rightarrow> None | Some s' \<Rightarrow> for_each xs f s')"

definition scan_row ::
  "byte list \<Rightarrow> nat \<Rightarrow> nat \<Rightarrow> int \<Rightarrow> int \<Rightarrow> scan_state \<Rightarrow> nat \<Rightarrow> scan_state option" where
  "scan_row binaryData w h minArea maxArea s y =
     for_each [0..<w] (scan_pixel binaryData w h minArea maxArea y) s"

definition findBlobs :: "byte list \<Rightarrow> nat \<Rightarrow> nat \<Rightarrow> int \<Rightarrow> int \<Rightarrow> blob list option" where
  "findBlobs binaryData w h minArea maxArea =
     map_option sc_blobs
       (for_each [0..<h] (scan_row binaryData w h minArea maxArea)
          \<lparr> sc_labels = replicate (length binaryData) 0, currentLabel = 0, sc_blobs = [] \<rparr>)"

subsection \<open>Connected components, declaratively\<close>

text \<open>
  The notions in which the result of \<open>findBlobs\<close> is stated. A pixel is a pair \<open>(x, y)\<close>;
  two pixels are adjacent when they differ by one step along one axis (4-connectivity);
  \<open>reach U S\<close> is the set of pixels of \<open>U\<close> that a path inside \<open>U\<close> connects to a pixel
  of \<open>S\<close>.
\<close>

type_synonym pixel = "int \<times> int"

definition in_bounds :: "int \<Rightarrow> int \<Rightarrow> pixel \<Rightarrow> bool" where
  "in_bounds w h p = (0 \<le> fst p \<and> fst p < w \<and> 0 \<le> snd p \<and> snd p < h)"

definition pix_idx :: "int \<Rightarrow> pixel \<Rightarrow> nat" where
  "pix_idx w p = nat (snd p * w + fst p)"

definition adjacent :: "pixel \<Rightarrow> pixel \<Rightarrow> bool" where
  "adjacent p q = (\<bar>fst p - fst q\<bar> + \<bar>snd p - snd q\<bar> = 1)"

inductive_set reach :: "pixel set \<Rightarrow> pixel set \<Rightarrow> pixel set" for U :: "pixel set" and S :: "pixel set" where
  start: "s \<in> S \<Longrightarrow> s \<in> U \<Longrightarrow> s \<in> reach U S"
| step: "p \<in> reach U S \<Longrightarrow> adjacent p q \<Longrightarrow> q \<in> U \<Longrightarrow> q \<in> reach U S"

text \<open>The pixels a flood fill may still mark: inside the image, not 0 in the image, and
  with label 0.\<close>

definition fillable :: "byte list \<Rightarrow> int \<Rightarrow> int \<Rightarrow> int list \<Rightarrow> pixel set" where
  "fillable bin w h L =
     {p. in_bounds w h p \<and> rd bin (pix_idx w p) \<noteq> Some 0 \<and> rd L (pix_idx w p) = Some 0}"

text \<open>The statistics of a flood fill after it has marked the pixels of \<open>N\<close> on top of the
  statistics \<open>st\<close>.\<close>

definition add_pixels :: "fill_stats \<Rightarrow> pixel set \<Rightarrow> fill_stats" where
  "add_pixels st N =
     \<lparr> f_area = f_area st + int (card N),
       sumX = sumX st + sum fst N, sumY = sumY st + sum snd N,
       minX = Min (insert (minX st) (fst ` N)), minY = Min (insert (minY st) (snd ` N)),
       maxX = Max (insert (maxX st) (fst ` N)), maxY = Max (insert (maxY st) (snd ` N)) \<rparr>"

text \<open>The foreground of an image, and the 4-connected component of a pixel in it.\<close>

definition foreground :: "byte list \<Rightarrow> nat \<Rightarrow> nat \<Rightarrow> pixel set" where
  "foreground bin w h =
     {p. in_bounds (int w) (int h) p \<and>
         (\<exists>v. rd bin (pix_idx (int w) p) = Some v \<and> v \<noteq> 0)}"

definition component :: "byte list \<Rightarrow> nat \<Rightarrow> nat \<Rightarrow> pixel \<Rightarrow> pixel set" where
  "component bin w h p = reach (foreground bin w h) {p}"

text \<open>The pixels in row-major order, and the components in the order in which a scan of
  that list meets them: a pixel of value 255 that lies in no component met before starts
  the next one.\<close>

definition row_major :: "nat \<Rightarrow> nat \<Rightarrow> pixel list" where
  "row_major w h = concat (map (\<lambda>y. map (\<lambda>x. (int x, int y)) [0..<w]) [0..<h])"

fun encounter :: "byte list \<Rightarrow> nat \<Rightarrow> nat \<Rightarrow> pixel list \<Rightarrow> pixel set \<Rightarrow> pixel set list" where
  "encounter bin w h [] seen = []"
| "encounter bin w h (p # ps) seen =
     (if rd bin (pix_idx (int w) p) = Some 255 \<and> p \<notin> seen
      then component bin w h p # encounter bin w h ps (seen \<union> component bin w h p)
      else encounter bin w h ps seen)"

definition components :: "byte list \<Rightarrow> nat \<Rightarrow> nat \<Rightarrow> pixel set list" where
  "components bin w h = encounter bin w h (row_major w h) {}"

text \<open>The blob of a set of pixels under an id: its size, the rounded mean of its
  coordinates, and its inclusive bounding box.\<close>

definition region_blob :: "int \<Rightarrow> pixel set \<Rightarrow> blob" where
  "region_blob k C =
     \<lparr> blob_id = k, area = int (card C),
       centroid = (js_round_div (sum fst C) (int (card C)),
                   js_round_div (sum snd C) (int (card C))),
       boundingBox = (Min (fst ` C), Min (snd ` C),
                      Max (fst ` C) - Min (fst ` C) + 1,
                      Max (snd ` C) - Min (snd ` C) + 1) \<rparr>"

text \<open>The blobs of a list of components: the component at position \<open>k\<close> (from 0) has
  id \<open>k + 1\<close>, and it is listed iff its size is within the two bounds.\<close>

definition gated_blobs :: "int \<Rightarrow> int \<Rightarrow> pixel set list \<Rightarrow> blob list" where
  "gated_blobs minArea maxArea cs =
     map (\<lambda>(k, C). region_blob (int k + 1) C)
       (filter (\<lambda>(k, C). minArea \<le> int (card C) \<and> int (card C) \<le> maxArea)
          (enumerate 0 cs))"

text \<open>A set of pixels is closed in \<open>F\<close> when no step to an adjacent pixel of \<open>F\<close>
  leaves it.\<close>

definition closed :: "pixel set \<Rightarrow> pixel set \<Rightarrow> bool" where
  "closed C F = (\<forall>a b. a \<in> C \<and> b \<in> F \<and> adjacent a b \<longrightarrow> b \<in> C)"

text \<open>The invariant of the scan of \<open>findBlobs\<close>: the pixels with a label are those of
  the components met so far, \<open>seen\<close>, which is closed in the foreground; the counter is
  the number of these components, and the blobs are those of these components.\<close>

definition scan_inv ::
  "byte list \<Rightarrow> nat \<Rightarrow> nat \<Rightarrow> int \<Rightarrow> int \<Rightarrow> scan_state \<Rightarrow> pixel set \<Rightarrow> pixel set list \<Rightarrow> bool" where
  "scan_inv bin w h mn mx s seen cs =
     (length (sc_labels s) = length bin \<and>
      currentLabel s = int (length cs) \<and>
      sc_blobs s = gated_blobs mn mx cs \<and>
      seen \<subseteq> foreground bin w h \<and>
      closed seen (foreground bin w h) \<and>
      (\<forall>q. in_bounds (int w) (int h) q \<longrightarrow>
           (rd (sc_labels s) (pix_idx (int w) q) = Some 0 \<longleftrightarrow>
            pix_idx (int w) q < length bin \<and> q \<notin> seen)))"

subsection \<open>analyzeFrame\<close>

record analyze_options =
  opt_threshold :: "int option"
  opt_minBlobArea :: "int option"
  opt_maxBlobArea :: "int option"
  opt_morphIterations :: "nat option"

record analysis_result =
  blobs :: "blob list"
  count :: int

text \<open>A destructuring default: it replaces \<open>undefined\<close> only.\<close>

definition dflt :: "'a option \<Rightarrow> 'a \<Rightarrow> 'a" where
  "dflt v d = (case v of None \<Rightarrow> d | Some a \<Rightarrow> a)"

text \<open>Without a background: a pixel is set when it is further than the threshold from the
  mean brightness of the frame.\<close>

definition mean_threshold :: "byte list \<Rightarrow> int \<Rightarrow> byte list" where
  "mean_threshold cur threshold =
     (let avgBrightness = (of_int (sum_list (map uint cur)) :: rat) / of_nat (length cur)
      in map (\<lambda>c. if \<bar>of_int (uint c) - avgBrightness\<bar> > of_int threshold then 255 else 0) cur)"

definition frame_difference ::
  "gray \<Rightarrow> image option \<Rightarrow> int \<Rightarrow> js_error + byte list" where
  "frame_difference current backgroundFrame threshold =
     (case backgroundFrame of
        Some bg \<Rightarrow>
          (case toGrayscale bg of
             Inl e \<Rightarrow> Inl e
           | Inr background \<Rightarrow>
               if width current \<noteq> width background \<or> height current \<noteq> height background
               then Inl Dimension_mismatch
               else Inr (computeDifference (data current) (data background) threshold))
      | None \<Rightarrow> Inr (mean_threshold (data current) threshold))"

definition analyzeFrame ::
  "image \<Rightarrow> image option \<Rightarrow> point list \<Rightarrow> analyze_options \<Rightarrow> js_error + analysis_result" where
  "analyzeFrame currentFrame backgroundFrame polygon options =
     (let threshold = dflt (opt_threshold options) 30;
          minBlobArea = dflt (opt_minBlobArea options) 500;
          maxBlobArea = dflt (opt_maxBlobArea options) 50000;
          morphIterations = dflt (opt_morphIterations options) 2
      in case toGrayscale currentFrame of
           Inl e \<Rightarrow> Inl e
         | Inr current \<Rightarrow>
             (case frame_difference current backgroundFrame threshold of
                Inl e \<Rightarrow> Inl e
              | Inr diffData \<Rightarrow>
                  (let cleaned = morphologyClean diffData (width current) (height current)
                                   (Some morphIterations);
                       msk = createPolygonMask polygon (width current) (height current);
                       masked = applyMask cleaned msk
                   in case findBlobs masked (width current) (height current)
                             minBlobArea maxBlobArea of
                        None \<Rightarrow> Inl Never_returns
                      | Some bs \<Rightarrow> Inr \<lparr> blobs = bs, count = int (length bs) \<rparr>)))"

subsection \<open>updateBackground\<close>







section \<open>Detection modes (detection-modes.ts)\<close>

datatype detection_mode = Blob | Hailo_yolo | Hailo_ssd

datatype model_type = Yolov5 | Ssd

record detection =
  d_class :: string
  confidence :: rat
  bbox :: "int \<times> int \<times> int \<times> int"

record detection_result =
  detections :: "detection list"
  d_count :: int
  inferenceTimeMs :: int
  d_mode :: detection_mode

record detect_options =
  minBlobArea :: "int option"
  maxBlobArea :: "int option"
  confidenceThreshold :: "rat option"
  classes :: "string list option"

text \<open>
  What the external detector can answer to \<open>POST /analyze/base64\<close>: the request fails in
  transport, or a response arrives with a status and a body that is JSON or not. A bounding
  box comes as an array of four numbers or as an object; box numbers are whole pixels.
\<close>

datatype raw_bbox = Box_array int int int int | Box_object int int int int

record raw_detection =
  r_label :: "string option"
  r_confidence :: "rat option"
  r_bbox :: "raw_bbox option"

record hailo_payload =
  p_detections :: "raw_detection list option"
  p_objects :: "raw_detection list option"
  p_inferenceMs :: "int option"
  p_error :: "string option"

datatype http_body = Not_json | Json hailo_payload

datatype hailo_reply = Fetch_failed | Http nat http_body

definition response_ok :: "nat \<Rightarrow> bool" where
  "response_ok status = (200 \<le> status \<and> status \<le> 299)"

definition model_name :: "model_type \<Rightarrow> string" where
  "model_name m = (case m of Yolov5 \<Rightarrow> ''yolov5m_vehicles'' | Ssd \<Rightarrow> ''ssd_mobilenet_v2'')"

definition detectBlob ::
  "image \<Rightarrow> image option \<Rightarrow> point list \<Rightarrow> detect_options \<Rightarrow> int \<Rightarrow> js_error + detection_result" where
  "detectBlob frameBuffer backgroundBuffer polygon options elapsed =
     (case analyzeFrame frameBuffer backgroundBuffer polygon
             \<lparr> opt_threshold = None,
               opt_minBlobArea = Some (num_or (minBlobArea options) 500),
               opt_maxBlobArea = Some (num_or (maxBlobArea options) 50000),
               opt_morphIterations = None \<rparr> of
        Inl e \<Rightarrow> Inl e
      | Inr analysis \<Rightarrow>
          Inr \<lparr> detections =
                  map (\<lambda>b. \<lparr> d_class = ''object'', confidence = 1, bbox = boundingBox b \<rparr>)
                    (blobs analysis),
                d_count = count analysis,
                inferenceTimeMs = elapsed,
                d_mode = Blob \<rparr>)"

definition normalize :: "raw_detection \<Rightarrow> detection" where
  "normalize det =
     \<lparr> d_class = (case r_label det of None \<Rightarrow> ''object''
                   | Some l \<Rightarrow> if l = [] then ''object'' else l),
       confidence = (case r_confidence det of None \<Rightarrow> 0 | Some c \<Rightarrow> c),
       bbox = (case r_bbox det of
                 None \<Rightarrow> (0, 0, 0, 0)
               | Some (Box_array x y w h) \<Rightarrow> (x, y, w, h)
               | Some (Box_object x y w h) \<Rightarrow> (x, y, w, h)) \<rparr>"

definition center_in_polygon :: "point list \<Rightarrow> detection \<Rightarrow> bool" where
  "center_in_polygon polygon det =
     (case bbox det of (x, y, w, h) \<Rightarrow>
        isPointInPolygon (of_int x + of_int w / 2, of_int y + of_int h / 2) polygon)"

definition rat_or :: "rat option \<Rightarrow> rat \<Rightarrow> rat" where
  "rat_or v d = (case v of None \<Rightarrow> d | Some n \<Rightarrow> if n = 0 then d else n)"

text \<open>The \<open>try\<close> block of \<open>detectHailo\<close>: every way it throws is \<open>Inl\<close>.\<close>

definition hailo_try ::
  "hailo_reply \<Rightarrow> point list \<Rightarrow> model_type \<Rightarrow> detect_options \<Rightarrow> int \<Rightarrow>
   js_error + detection_result" where
  "hailo_try reply polygon modelType options elapsed =
     (case reply of
        Fetch_failed \<Rightarrow> Inl Hailo_error
      | Http status body \<Rightarrow>
          if \<not> response_ok status then Inl Hailo_error
          else (case body of
             Not_json \<Rightarrow> Inl Hailo_error
           | Json result \<Rightarrow>
               if p_error result \<noteq> None \<and> p_error result \<noteq> Some [] then Inl Hailo_error
               else
                 (let rawDetections =
                        (case p_detections result of
                           Some ds \<Rightarrow> ds
                         | None \<Rightarrow> (case p_objects result of Some os \<Rightarrow> os | None \<Rightarrow> []));
                      dets = map normalize rawDetections;
                      filteredDetections = filter (center_in_polygon polygon) dets;
                      classFiltered =
                        (case classes options of
                           None \<Rightarrow> filteredDetections
                         | Some cs \<Rightarrow>
                             if cs = [] then filteredDetections
                             else filter (\<lambda>d. d_class d \<in> set cs) filteredDetections);
                      confFiltered =
                        filter (\<lambda>d. confidence d \<ge> rat_or (confidenceThreshold options) (1 / 2))
                          classFiltered
                  in Inr \<lparr> detections = confFiltered,
                           d_count = int (length confFiltered),
                           inferenceTimeMs = num_or (p_inferenceMs result) elapsed,
                           d_mode = (case modelType of Yolov5 \<Rightarrow> Hailo_yolo
                                     | Ssd \<Rightarrow> Hailo_ssd) \<rparr>)))"

text \<open>\<open>detectHailo\<close>: the \<open>catch\<close> clause runs the blob detection with no background and
  the two literal area bounds. The parameter \<open>hailo\<close> is the external service: what it
  answers to a frame and a model name.\<close>

definition detectHailo ::
  "(image \<Rightarrow> string \<Rightarrow> hailo_reply) \<Rightarrow> image \<Rightarrow> point list \<Rightarrow> model_type \<Rightarrow>
   detect_options \<Rightarrow> int \<Rightarrow> js_error + detection_result" where
  "detectHailo hailo frameBuffer polygon modelType options elapsed =
     (case hailo_try (hailo frameBuffer (model_name modelType)) polygon modelType options
             elapsed of
        Inr r \<Rightarrow> Inr r
      | Inl error \<Rightarrow>
          detectBlob frameBuffer None polygon
            \<lparr> minBlobArea = Some 500, maxBlobArea = Some 50000,
              confidenceThreshold = None, classes = None \<rparr> elapsed)"

definition detectInFrame ::
  "detection_mode \<Rightarrow> (image \<Rightarrow> string \<Rightarrow> hailo_reply) \<Rightarrow> image \<Rightarrow> image option \<Rightarrow>
   point list \<Rightarrow> detect_options \<Rightarrow> int \<Rightarrow> js_error + detection_result" where
  "detectInFrame currentMode hailo frameBuffer backgroundBuffer polygon options elapsed =
     (case currentMode of
        Blob \<Rightarrow> detectBlob frameBuffer backgroundBuffer polygon options elapsed
      | Hailo_yolo \<Rightarrow> detectHailo hailo frameBuffer polygon Yolov5 options elapsed
      | Hailo_ssd \<Rightarrow> detectHailo hailo frameBuffer polygon Ssd options elapsed)"

text \<open>The replies on which the \<open>try\<close> block throws: no response, a status that is not
  OK, a body that is not JSON, or a payload whose \<open>error\<close> is a non-empty string.\<close>

definition failed_reply :: "hailo_reply \<Rightarrow> bool" where
  "failed_reply reply =
     (case reply of
        Fetch_failed \<Rightarrow> True
      | Http status body \<Rightarrow>
          \<not> response_ok status \<or>
          (case body of
             Not_json \<Rightarrow> True
           | Json result \<Rightarrow> p_error result \<noteq> None \<and> p_error result \<noteq> Some []))"

text \<open>The options with which the \<open>catch\<close> clause calls the blob detection, and the model
  type that a mode stands for.\<close>

definition fallback_options :: detect_options where
  "fallback_options = \<lparr> minBlobArea = Some 500, maxBlobArea = Some 50000,
     confidenceThreshold = None, classes = None \<rparr>"

definition mode_model :: "detection_mode \<Rightarrow> model_type" where
  "mode_model m = (case m of Hailo_ssd \<Rightarrow> Ssd | _ \<Rightarrow> Yolov5)"

section \<open>The row store (database.ts)\<close>

record zone =
  z_id :: string
  z_name :: string
  z_camera_id :: "string option"
  z_polygon :: "point list"
  min_blob_area :: int
  max_blob_area :: int
  alarm_threshold :: int
  created_at :: int
  updated_at :: int

record zone_input =
  in_name :: string
  in_camera_id :: "string option"
  in_polygon :: "point list"
  in_min_blob_area :: "int option"
  in_max_blob_area :: "int option"
  in_alarm_threshold :: "int option"

record occupancy_row =
  ol_id :: nat
  ol_zone_id :: string
  ol_count :: int
  ol_blob_details :: "blob list option"
  ol_timestamp :: int

datatype event_type = Entry | Exit | Occupancy_change

record parking_event =
  ev_id :: nat
  ev_zone_id :: string
  ev_zone_name :: string
  ev_camera_id :: string
  ev_type :: event_type
  count_before :: int
  count_after :: int
  duration_seconds :: "int option"
  entry_time :: "int option"
  exit_time :: "int option"
  ev_timestamp :: int

record zone_session =
  entryTime :: int
  s_count :: int

text \<open>
  The three tables are lists of rows in insertion order; the two \<open>AUTOINCREMENT\<close> counters
  are kept beside them, so that an id is never used twice, also after a delete.
  \<open>activeZoneSessions\<close> is the module's in-memory map.

  The schema declares \<open>zone_id\<close> of \<open>occupancy_log\<close> and of \<open>parking_events\<close> a foreign key
  into \<open>zones\<close>. The program sets no pragma, so whether the connection enforces the two
  keys is a matter of the SQLite build behind \<open>better-sqlite3\<close> (its standard build does;
  the comment in \<open>deleteZone\<close> counts on it). The field \<open>foreign_keys\<close> is that setting.
\<close>

record store =
  foreign_keys :: bool
  zones :: "zone list"
  background_frames :: "string \<rightharpoonup> image"
  occupancy_log :: "occupancy_row list"
  occupancy_seq :: nat
  parking_events :: "parking_event list"
  parking_seq :: nat
  activeZoneSessions :: "string \<rightharpoonup> zone_session"

text \<open>The store after the schema has been created on a fresh database file.\<close>

definition empty_store :: store where
  "empty_store = \<lparr> foreign_keys = True, zones = [], background_frames = Map.empty,
     occupancy_log = [],
     occupancy_seq = 0, parking_events = [], parking_seq = 0,
     activeZoneSessions = Map.empty \<rparr>"

datatype db_error = Constraint_primary_key | Constraint_foreign_key

definition zone_exists :: "string \<Rightarrow> store \<Rightarrow> bool" where
  "zone_exists i db = (\<exists>z \<in> set (zones db). z_id z = i)"

text \<open>A row of a child table can be inserted for zone \<open>i\<close> when the zone row exists or
  the keys are not enforced.\<close>

definition may_reference :: "string \<Rightarrow> store \<Rightarrow> bool" where
  "may_reference i db = (zone_exists i db \<or> \<not> foreign_keys db)"

definition getZone :: "string \<Rightarrow> store \<Rightarrow> zone option" where
  "getZone i db = find (\<lambda>z. z_id z = i) (zones db)"

text \<open>\<open>createZone\<close>: the insert fails when the primary key is taken; the result is what
  \<open>getZone\<close> reads back. The clock \<open>now\<close> stands for \<open>CURRENT_TIMESTAMP\<close>.\<close>

definition createZone ::
  "int \<Rightarrow> string \<Rightarrow> zone_input \<Rightarrow> store \<Rightarrow> db_error + (zone option \<times> store)" where
  "createZone now i inp db =
     (if \<exists>z \<in> set (zones db). z_id z = i then Inl Constraint_primary_key
      else
        let row = \<lparr> z_id = i,
                    z_name = in_name inp,
                    z_camera_id = str_or_null (in_camera_id inp),
                    z_polygon = in_polygon inp,
                    min_blob_area = num_or (in_min_blob_area inp) 500,
                    max_blob_area = num_or (in_max_blob_area inp) 50000,
                    alarm_threshold = num_or (in_alarm_threshold inp) 1,
                    created_at = now,
                    updated_at = now \<rparr>;
            db' = db\<lparr>zones := zones db @ [row]\<rparr>
        in Inr (getZone i db', db'))"

text \<open>\<open>deleteZone\<close>: three statements in the order of the source; the result is
  \<open>result.changes > 0\<close> of the last one. With the keys enforced, the delete of a zone row
  that a row of a child table still references fails.\<close>

definition delete_occupancy_rows :: "string \<Rightarrow> store \<Rightarrow> store" where
  "delete_occupancy_rows i db =
     db\<lparr>occupancy_log := filter (\<lambda>r. ol_zone_id r \<noteq> i) (occupancy_log db)\<rparr>"

definition delete_event_rows :: "string \<Rightarrow> store \<Rightarrow> store" where
  "delete_event_rows i db =
     db\<lparr>parking_events := filter (\<lambda>e. ev_zone_id e \<noteq> i) (parking_events db)\<rparr>"

definition referenced :: "string \<Rightarrow> store \<Rightarrow> bool" where
  "referenced i db =
     ((\<exists>r \<in> set (occupancy_log db). ol_zone_id r = i) \<or>
      (\<exists>e \<in> set (parking_events db). ev_zone_id e = i))"

definition delete_zone_rows :: "string \<Rightarrow> store \<Rightarrow> db_error + (nat \<times> store)" where
  "delete_zone_rows i db =
     (if foreign_keys db \<and> zone_exists i db \<and> referenced i db
      then Inl Constraint_foreign_key
      else Inr (length (filter (\<lambda>z. z_id z = i) (zones db)),
                db\<lparr>zones := filter (\<lambda>z. z_id z \<noteq> i) (zones db)\<rparr>))"

definition deleteZone :: "string \<Rightarrow> store \<Rightarrow> db_error + (bool \<times> store)" where
  "deleteZone i db =
     (let db1 = delete_occupancy_rows i db;
          db2 = delete_event_rows i db1
      in case delete_zone_rows i db2 of
           Inl e \<Rightarrow> Inl e
         | Inr (changes, db3) \<Rightarrow> Inr (changes > 0, db3))"

text \<open>\<open>logOccupancy\<close>: the insert fails on a zone id that has no zone row, when the keys
  are enforced.\<close>

definition logOccupancy ::
  "int \<Rightarrow> string \<Rightarrow> int \<Rightarrow> blob list option \<Rightarrow> store \<Rightarrow> db_error + store" where
  "logOccupancy now zoneId cnt blobDetails db =
     (if may_reference zoneId db then
        Inr (db\<lparr>occupancy_log := occupancy_log db @
               [\<lparr> ol_id = Suc (occupancy_seq db), ol_zone_id = zoneId, ol_count = cnt,
                  ol_blob_details = blobDetails, ol_timestamp = now \<rparr>],
             occupancy_seq := Suc (occupancy_seq db)\<rparr>)
      else Inl Constraint_foreign_key)"

subsection \<open>The event logger\<close>

text \<open>The \<open>INSERT\<close> of \<open>logParkingEvent\<close> and the event it returns, with
  \<open>lastInsertRowid\<close> as its id. The insert fails on a zone id that has no zone row, when
  the keys are enforced; the exception leaves the function with the store as it is at that
  point.\<close>

definition insert_event ::
  "int \<Rightarrow> string \<Rightarrow> string \<Rightarrow> string \<Rightarrow> event_type \<Rightarrow> int \<Rightarrow> int \<Rightarrow>
   int option \<Rightarrow> int option \<Rightarrow> int option \<Rightarrow> store \<Rightarrow>
   (db_error + parking_event option) \<times> store" where
  "insert_event now zoneId zoneName cameraId eventType countBefore countAfter
       durationSeconds entryTm exitTm db =
     (let e = \<lparr> ev_id = Suc (parking_seq db), ev_zone_id = zoneId, ev_zone_name = zoneName,
                 ev_camera_id = cameraId, ev_type = eventType,
                 count_before = countBefore, count_after = countAfter,
                 duration_seconds = durationSeconds, entry_time = entryTm,
                 exit_time = exitTm, ev_timestamp = now \<rparr>
      in if may_reference zoneId db
         then (Inr (Some e), db\<lparr>parking_events := parking_events db @ [e],
                                 parking_seq := Suc (parking_seq db)\<rparr>)
         else (Inl Constraint_foreign_key, db))"

text \<open>\<open>logParkingEvent\<close>: the result is the event, \<open>null\<close>, or the exception of the
  insert; the session map is written before the insert.\<close>

definition logParkingEvent ::
  "int \<Rightarrow> string \<Rightarrow> string \<Rightarrow> string \<Rightarrow> int \<Rightarrow> int \<Rightarrow> store \<Rightarrow>
   (db_error + parking_event option) \<times> store" where
  "logParkingEvent now zoneId zoneName cameraId countBefore countAfter db =
     (if countBefore = 0 \<and> countAfter > 0 then
        insert_event now zoneId zoneName cameraId Entry countBefore countAfter
          None (Some now) None
          (db\<lparr>activeZoneSessions :=
                (activeZoneSessions db)(zoneId \<mapsto> \<lparr>entryTime = now, s_count = countAfter\<rparr>)\<rparr>)
      else if countBefore > 0 \<and> countAfter = 0 then
        (case activeZoneSessions db zoneId of
           Some session \<Rightarrow>
             insert_event now zoneId zoneName cameraId Exit countBefore countAfter
               (Some (js_round_div (now - entryTime session) 1000))
               (Some (entryTime session)) (Some now)
               (db\<lparr>activeZoneSessions := (activeZoneSessions db)(zoneId := None)\<rparr>)
         | None \<Rightarrow>
             insert_event now zoneId zoneName cameraId Exit countBefore countAfter
               None None (Some now) db)
      else if countBefore \<noteq> countAfter then
        insert_event now zoneId zoneName cameraId Occupancy_change countBefore countAfter
          None None None db
      else (Inr None, db))"

subsection \<open>Statistics\<close>

record zone_stats =
  st_zone_id :: string
  st_zone_name :: string
  st_entries :: nat
  st_exits :: nat
  st_avgDuration :: int

record parking_stats =
  totalEntries :: nat
  totalExits :: nat
  avgDurationSeconds :: int
  currentOccupied :: nat
  byZone :: "zone_stats list"

definition count_type :: "event_type \<Rightarrow> parking_event list \<Rightarrow> nat" where
  "count_type k es = length (filter (\<lambda>e. ev_type e = k) es)"

text \<open>\<open>Math.round (AVG (duration_seconds) || 0)\<close>: the mean of the durations that are
  not null, rounded; 0 when there is none.\<close>

definition avg_duration :: "parking_event list \<Rightarrow> int" where
  "avg_duration es =
     (let ds = List.map_filter duration_seconds es
      in if ds = [] then 0 else js_round_div (sum_list ds) (int (length ds)))"

text \<open>The filter \<open>timestamp >= since\<close>. The program compares the stored text of the
  timestamp with the text the caller passes; here both are clock readings.\<close>

definition since_rows :: "int option \<Rightarrow> parking_event list \<Rightarrow> parking_event list" where
  "since_rows since es =
     (case since of None \<Rightarrow> es | Some t \<Rightarrow> filter (\<lambda>e. ev_timestamp e \<ge> t) es)"

text \<open>\<open>GROUP BY zone_id, zone_name ORDER BY entries DESC\<close>: one row per key, the keys in
  ascending order, then sorted on the entry count, larger first, rows of equal count
  staying in the order of their keys.\<close>

definition group_stats :: "parking_event list \<Rightarrow> string \<times> string \<Rightarrow> zone_stats" where
  "group_stats es k =
     (let g = filter (\<lambda>e. (ev_zone_id e, ev_zone_name e) = k) es
      in \<lparr> st_zone_id = fst k, st_zone_name = snd k,
            st_entries = count_type Entry g, st_exits = count_type Exit g,
            st_avgDuration = avg_duration g \<rparr>)"

definition by_zone_rows :: "parking_event list \<Rightarrow> zone_stats list" where
  "by_zone_rows es =
     sort_key (\<lambda>s. - int (st_entries s))
       (map (group_stats es)
          (sort_key (\<lambda>k. k) (remdups (map (\<lambda>e. (ev_zone_id e, ev_zone_name e)) es))))"

text \<open>\<open>currentOccupied\<close> is \<open>activeZoneSessions.size\<close>, the number of keys of the
  in-memory map, not a figure read from the event table.\<close>

definition getParkingStats :: "int option \<Rightarrow> store \<Rightarrow> parking_stats" where
  "getParkingStats since db =
     (let es = since_rows since (parking_events db)
      in \<lparr> totalEntries = count_type Entry es,
            totalExits = count_type Exit es,
            avgDurationSeconds = avg_duration es,
            currentOccupied = card (dom (activeZoneSessions db)),
            byZone = by_zone_rows es \<rparr>)"

subsection \<open>Reading zones and backgrounds\<close>

text \<open>\<open>ORDER BY created_at DESC\<close>; rows of one timestamp stay in the order of their
  insertion.\<close>

definition getAllZones :: "store \<Rightarrow> zone list" where
  "getAllZones db = sort_key (\<lambda>z. - created_at z) (zones db)"

definition getBackgroundFrame :: "string \<Rightarrow> store \<Rightarrow> image option" where
  "getBackgroundFrame cameraId db = background_frames db cameraId"

section \<open>The application state (index.ts, round-robin.ts)\<close>

record occupancy_entry =
  o_count :: int
  o_blobs :: "blob list"
  o_timestamp :: int

text \<open>The result that \<open>analyzeCamera\<close> hands to the update callback.\<close>

record rr_result =
  rr_camera_id :: string
  rr_zone_id :: string
  rr_zone_name :: string
  rr_count :: int
  rr_blobs :: "blob list"
  rr_alarm :: bool
  rr_timestamp :: int

record zone_result =
  zr_zone_id :: string
  zr_zone_name :: string
  zr_count :: int
  zr_blobs :: "blob list"
  zr_alarm :: bool

datatype message =
    Occupancy_update zone_result int
  | Occupancy_update_rr string string string int bool int
  | Parking_event parking_event

text \<open>
  The module-level variables of index.ts (\<open>currentOccupancy\<close>, and the messages handed to
  \<open>broadcast\<close>, in order), of detection-modes.ts (\<open>currentMode\<close>), of database.ts (the
  store) and of round-robin.ts (\<open>config\<close>, \<open>currentIndex\<close>, \<open>intervalHandle\<close>,
  \<open>onUpdate\<close>). \<open>analysed\<close> is the console output of \<open>processNext\<close>: the camera ids it has
  announced, in order, each of which it has passed to \<open>analyzeCamera\<close>. The cursor is a
  JavaScript number: \<open>None\<close> is \<open>NaN\<close>, which \<open>% 0\<close> gives.
\<close>

record app =
  database :: store
  currentOccupancy :: "string \<rightharpoonup> occupancy_entry"
  currentMode :: detection_mode
  sent :: "message list"
  cameras :: "string list"
  intervalMs :: int
  enabled :: bool
  currentIndex :: "nat option"
  intervalHandle :: "int option"
  onUpdate :: bool
  analysed :: "string option list"

text \<open>The outside world at one step: the snapshot source by camera id, a fetch by URL, the
  external detector, and the time a detection is measured to take. \<open>None\<close> is a fetch
  that fails or answers with a status that is not OK.\<close>

record world =
  fetchFrame :: "string \<Rightarrow> image option"
  fetch_url :: "string \<Rightarrow> image option"
  hailo_ops :: "image \<Rightarrow> string \<Rightarrow> hailo_reply"
  elapsed_ms :: int

subsection \<open>The update callback of the scheduler (index.ts, /round-robin/start)\<close>

text \<open>The callback has no \<open>try\<close>: an exception of the event logger leaves it at once.
  The result is that exception, if any, and the state at the end.\<close>

definition update_callback :: "int \<Rightarrow> rr_result \<Rightarrow> app \<Rightarrow> db_error option \<times> app" where
  "update_callback now result a =
     (let prevCount = (case currentOccupancy a (rr_zone_id result) of
                         None \<Rightarrow> 0 | Some prevOccupancy \<Rightarrow> o_count prevOccupancy);
          a1 = a\<lparr>currentOccupancy := (currentOccupancy a)(rr_zone_id result \<mapsto>
                    \<lparr> o_count = rr_count result, o_blobs = rr_blobs result,
                      o_timestamp = rr_timestamp result \<rparr>)\<rparr>;
          update = Occupancy_update_rr (rr_zone_id result) (rr_zone_name result)
                     (rr_camera_id result) (rr_count result) (rr_alarm result)
                     (rr_timestamp result)
      in if prevCount \<noteq> rr_count result then
           (case logParkingEvent now (rr_zone_id result) (rr_zone_name result)
                   (if rr_camera_id result = [] then [] else rr_camera_id result)
                   prevCount (rr_count result) (database a1) of
              (Inl e, d') \<Rightarrow> (Some e, a1\<lparr>database := d'\<rparr>)
            | (Inr (Some event), d') \<Rightarrow>
                (None, a1\<lparr>database := d', sent := sent a1 @ [Parking_event event, update]\<rparr>)
            | (Inr None, d') \<Rightarrow> (None, a1\<lparr>database := d', sent := sent a1 @ [update]\<rparr>))
         else (None, a1\<lparr>sent := sent a1 @ [update]\<rparr>))"

subsection \<open>The scheduler (round-robin.ts)\<close>

text \<open>The body of the zone loop of \<open>analyzeCamera\<close> once the analysis has returned; the
  result is the exception that left it, if any, and the state at the end.\<close>

definition record_analysis ::
  "int \<Rightarrow> string \<Rightarrow> zone \<Rightarrow> analysis_result \<Rightarrow> app \<Rightarrow> db_error option \<times> app" where
  "record_analysis now cameraId zone analysis a =
     (let result = \<lparr> rr_camera_id = cameraId, rr_zone_id = z_id zone,
                      rr_zone_name = z_name zone, rr_count = count analysis,
                      rr_blobs = blobs analysis,
                      rr_alarm = (count analysis \<ge> alarm_threshold zone),
                      rr_timestamp = now \<rparr>
      in case logOccupancy now (z_id zone) (count analysis) (Some (blobs analysis))
                (database a) of
           Inl e \<Rightarrow> (Some e, a)
         | Inr d \<Rightarrow>
             (let a1 = a\<lparr>database := d\<rparr>
              in if onUpdate a1 then update_callback now result a1 else (None, a1)))"

text \<open>
  \<open>processNext\<close> and \<open>analyzeCamera\<close> are \<open>async\<close>: a call runs to its first \<open>await\<close>, and
  the rest runs later, in pieces that each go from one \<open>await\<close> to the next. Between two
  pieces the timer can fire and a request can be served. A tick in flight is what is left
  of it to run: it awaits the snapshot, with the camera id and the zones it has read; or it
  awaits the analysis of the first of the zones left, with the snapshot and the background;
  or \<open>analyzeCamera\<close> has returned and \<open>processNext\<close> is still to advance the cursor.
  In the program this last piece follows the piece before it with no event in between;
  here it is a piece like the others, and no statement below has an event there.
\<close>

datatype tick =
    Fetching string "zone list"
  | Analysing string image "image option" "zone list"
  | Returning

text \<open>\<open>analyzeCamera\<close> up to its first \<open>await\<close>; the camera id is \<open>None\<close> when the cursor
  read past the end of the camera list (\<open>undefined\<close>), and then no zone matches.\<close>

definition analyzeCamera :: "string option \<Rightarrow> app \<Rightarrow> tick" where
  "analyzeCamera cameraId a =
     (case cameraId of
        None \<Rightarrow> Returning
      | Some cam \<Rightarrow>
          (let zs = filter (\<lambda>z. z_camera_id z = Some cam) (getAllZones (database a)) in
           if zs = [] then Returning else Fetching cam zs))"

text \<open>\<open>processNext\<close> up to its \<open>await\<close>: the guard, the read of the cursor, the line on
  the console and the call of \<open>analyzeCamera\<close>. The result is the tick left in flight, if
  any.\<close>

definition processNext :: "app \<Rightarrow> app \<times> tick option" where
  "processNext a =
     (if \<not> enabled a \<or> cameras a = [] then (a, None)
      else
        (let cameraId = (case currentIndex a of None \<Rightarrow> None | Some i \<Rightarrow> rd (cameras a) i);
             a1 = a\<lparr>analysed := analysed a @ [cameraId]\<rparr>
         in (a1, Some (analyzeCamera cameraId a1))))"

text \<open>\<open>(currentIndex + 1) % config.cameras.length\<close>, on the cursor and the length as they
  are when the tick gets there.\<close>

definition next_index :: "nat option \<Rightarrow> nat \<Rightarrow> nat option" where
  "next_index i n =
     (case i of None \<Rightarrow> None | Some k \<Rightarrow> if n = 0 then None else Some ((k + 1) mod n))"

text \<open>
  One piece of a tick in flight, with the world and the clock of that moment. A snapshot
  that fails, and an exception of the analysis, of the store or of the callback, leave the
  zone loop for the \<open>catch\<close> clause, which only writes to the console: \<open>analyzeCamera\<close>
  returns and what was written before stays. The background is read when the snapshot has
  arrived. The last piece advances the cursor and ends the tick.
\<close>

fun resume :: "world \<Rightarrow> int \<Rightarrow> tick \<Rightarrow> app \<Rightarrow> app \<times> tick option" where
  "resume wd now (Fetching cam zs) a =
     (case fetchFrame wd cam of
        None \<Rightarrow> (a, Some Returning)
      | Some frameBuffer \<Rightarrow>
          (a, Some (Analysing cam frameBuffer (getBackgroundFrame cam (database a)) zs)))"
| "resume wd now (Analysing cam frameBuffer backgroundFrame []) a = (a, Some Returning)"
| "resume wd now (Analysing cam frameBuffer backgroundFrame (zone # zs)) a =
     (case analyzeFrame frameBuffer backgroundFrame (z_polygon zone)
             \<lparr> opt_threshold = None, opt_minBlobArea = Some (min_blob_area zone),
               opt_maxBlobArea = Some (max_blob_area zone), opt_morphIterations = None \<rparr> of
        Inl e \<Rightarrow> (a, Some Returning)
      | Inr analysis \<Rightarrow>
          (case record_analysis now cam zone analysis a of
             (Some e, a') \<Rightarrow> (a', Some Returning)
           | (None, a') \<Rightarrow>
               (a', Some (if zs = [] then Returning
                          else Analysing cam frameBuffer backgroundFrame zs))))"
| "resume wd now Returning a =
     (a\<lparr>currentIndex := next_index (currentIndex a) (length (cameras a))\<rparr>, None)"

text \<open>\<open>start\<close>: \<open>clearInterval\<close> cancels the timer of an earlier \<open>start\<close> and leaves the
  variable as it is; the call of \<open>processNext\<close> is not awaited, so \<open>start\<close> stores the new
  timer and returns with the first tick in flight. A handle is modelled by the interval of
  its timer.\<close>

definition start :: "string list \<Rightarrow> int \<Rightarrow> app \<Rightarrow> app \<times> tick option" where
  "start cams interval a =
     (let a1 = a\<lparr>cameras := cams, intervalMs := interval, enabled := True,
                 currentIndex := Some 0\<rparr>;
          (a2, t) = processNext a1
      in (a2\<lparr>intervalHandle := Some interval\<rparr>, t))"

definition stop :: "app \<Rightarrow> app" where
  "stop a = a\<lparr>enabled := False, intervalHandle := None\<rparr>"

text \<open>
  What happens to the scheduler, one event at a time, on the state and the ticks in
  flight: the timer fires and calls \<open>processNext\<close> (a timer that has been cleared does not
  fire); the tick at position \<open>k\<close> among those in flight runs its next piece; \<open>start\<close> or
  \<open>stop\<close> is called. Neither call touches the ticks in flight.
\<close>

datatype event = Fire | Resume nat world int | Start "string list" int | Stop

fun launch :: "app \<times> tick option \<Rightarrow> tick list \<Rightarrow> app \<times> tick list" where
  "launch (a, None) ts = (a, ts)"
| "launch (a, Some t) ts = (a, ts @ [t])"

fun step :: "event \<Rightarrow> app \<times> tick list \<Rightarrow> app \<times> tick list" where
  "step Fire (a, ts) =
     (if intervalHandle a = None then (a, ts) else launch (processNext a) ts)"
| "step (Resume k wd now) (a, ts) =
     (if k < length ts then
        (case resume wd now (ts ! k) a of
           (a', None) \<Rightarrow> (a', take k ts @ drop (Suc k) ts)
         | (a', Some t) \<Rightarrow> (a', ts[k := t]))
      else (a, ts))"
| "step (Start cams interval) (a, ts) = launch (start cams interval a) ts"
| "step Stop (a, ts) = (stop a, ts)"

definition run :: "event list \<Rightarrow> app \<times> tick list \<Rightarrow> app \<times> tick list" where
  "run es s = foldl (\<lambda>s e. step e s) s es"

subsection \<open>A tick that nothing interrupts\<close>

text \<open>The zone loop of \<open>analyzeCamera\<close> as a whole, for a tick whose pieces run one after
  the other with no other event in between.\<close>

fun analyze_zones :: "int \<Rightarrow> string \<Rightarrow> image \<Rightarrow> image option \<Rightarrow> zone list \<Rightarrow> app \<Rightarrow> app" where
  "analyze_zones now cameraId frameBuffer backgroundFrame [] a = a"
| "analyze_zones now cameraId frameBuffer backgroundFrame (zone # zs) a =
     (case analyzeFrame frameBuffer backgroundFrame (z_polygon zone)
             \<lparr> opt_threshold = None, opt_minBlobArea = Some (min_blob_area zone),
               opt_maxBlobArea = Some (max_blob_area zone), opt_morphIterations = None \<rparr> of
        Inl e \<Rightarrow> a
      | Inr analysis \<Rightarrow>
          (case record_analysis now cameraId zone analysis a of
             (Some e, a') \<Rightarrow> a'
           | (None, a') \<Rightarrow> analyze_zones now cameraId frameBuffer backgroundFrame zs a'))"

text \<open>The state when a tick in flight has run to its end in one world and at one clock
  reading, and the events of such a tick: the timer fires, then the tick runs \<open>n\<close> pieces.
  A piece asked of no tick does nothing, so \<open>n\<close> may exceed the pieces the tick has.\<close>

definition finish :: "world \<Rightarrow> int \<Rightarrow> tick \<Rightarrow> app \<Rightarrow> app" where
  "finish wd now t a =
     (let a' = (case t of
                  Fetching cam zs \<Rightarrow>
                    (case fetchFrame wd cam of
                       None \<Rightarrow> a
                     | Some frameBuffer \<Rightarrow>
                         analyze_zones now cam frameBuffer
                           (getBackgroundFrame cam (database a)) zs a)
                | Analysing cam frameBuffer backgroundFrame zs \<Rightarrow>
                    analyze_zones now cam frameBuffer backgroundFrame zs a
                | Returning \<Rightarrow> a)
      in a'\<lparr>currentIndex := next_index (currentIndex a') (length (cameras a'))\<rparr>)"

text \<open>A bound on the pieces a tick in flight has left.\<close>

fun pieces_left :: "tick \<Rightarrow> nat" where
  "pieces_left (Fetching cam zs) = length zs + 3"
| "pieces_left (Analysing cam frameBuffer backgroundFrame zs) = length zs + 2"
| "pieces_left Returning = 1"

definition pieces :: "world \<Rightarrow> int \<Rightarrow> nat \<Rightarrow> event list" where
  "pieces wd now n = replicate n (Resume 0 wd now)"

definition whole_tick :: "nat \<Rightarrow> world \<times> int \<Rightarrow> event list" where
  "whole_tick n w = Fire # pieces (fst w) (snd w) n"

text \<open>The state after such a tick, from the firing of the timer on.\<close>

definition tick_alone :: "world \<times> int \<Rightarrow> app \<Rightarrow> app" where
  "tick_alone w a =
     (case processNext a of
        (a1, None) \<Rightarrow> a1
      | (a1, Some t) \<Rightarrow> finish (fst w) (snd w) t a1)"

subsection \<open>The handlers of /analyze and /analyze-stream (index.ts)\<close>

datatype response = Status_400 | Status_500 | Results "zone_result list"

text \<open>The conversion of detections to blobs in the two handlers.\<close>

definition detection_blobs :: "detection list \<Rightarrow> blob list" where
  "detection_blobs ds =
     map (\<lambda>(i, d). case bbox d of (x, y, w, h) \<Rightarrow>
            \<lparr> blob_id = int i + 1, area = w * h,
              centroid = (js_round_div (2 * x + w) 2, js_round_div (2 * y + h) 2),
              boundingBox = bbox d \<rparr>)
       (enumerate 0 ds)"

definition vehicle_options :: "zone \<Rightarrow> detect_options" where
  "vehicle_options zone =
     \<lparr> minBlobArea = Some (min_blob_area zone), maxBlobArea = Some (max_blob_area zone),
       confidenceThreshold = Some (1 / 2),
       classes = Some [''car'', ''truck'', ''bus'', ''motorcycle'', ''van'', ''vehicle''] \<rparr>"

text \<open>The analysis of one zone in a handler, by the current mode.\<close>

definition handler_analysis ::
  "world \<Rightarrow> app \<Rightarrow> image \<Rightarrow> image option \<Rightarrow> zone \<Rightarrow> js_error + analysis_result" where
  "handler_analysis wd a imageBuffer backgroundFrame zone =
     (if currentMode a = Blob then
        analyzeFrame imageBuffer backgroundFrame (z_polygon zone)
          \<lparr> opt_threshold = None, opt_minBlobArea = Some (min_blob_area zone),
            opt_maxBlobArea = Some (max_blob_area zone), opt_morphIterations = None \<rparr>
      else
        (case detectInFrame (currentMode a) (hailo_ops wd) imageBuffer backgroundFrame
                (z_polygon zone) (vehicle_options zone) (elapsed_ms wd) of
           Inl e \<Rightarrow> Inl e
         | Inr result \<Rightarrow>
             Inr \<lparr> blobs = detection_blobs (detections result), count = d_count result \<rparr>))"

text \<open>What both handlers do with the analysis of one zone: set the occupancy entry, append
  an occupancy row, and broadcast the result. An exception of the store leaves this with
  the entry set.\<close>

definition handler_write ::
  "int \<Rightarrow> zone \<Rightarrow> analysis_result \<Rightarrow> app \<Rightarrow> (db_error + zone_result) \<times> app" where
  "handler_write now zone analysis a =
     (let a1 = a\<lparr>currentOccupancy := (currentOccupancy a)(z_id zone \<mapsto>
                    \<lparr> o_count = count analysis, o_blobs = blobs analysis,
                      o_timestamp = now \<rparr>)\<rparr>;
          result = \<lparr> zr_zone_id = z_id zone, zr_zone_name = z_name zone,
                     zr_count = count analysis, zr_blobs = blobs analysis,
                     zr_alarm = (count analysis \<ge> alarm_threshold zone) \<rparr>
      in case logOccupancy now (z_id zone) (count analysis) (Some (blobs analysis))
                (database a1) of
           Inl e \<Rightarrow> (Inl e, a1)
         | Inr d \<Rightarrow>
             (Inr result, a1\<lparr>database := d, sent := sent a1 @ [Occupancy_update result now]\<rparr>))"

text \<open>The zone loop of a handler; \<open>bgKey\<close> chooses the background of a zone. An exception
  ends the request with status 500 and keeps what was written for the zones before.\<close>

fun handler_zones ::
  "world \<Rightarrow> int \<Rightarrow> image \<Rightarrow> (zone \<Rightarrow> string) \<Rightarrow> zone list \<Rightarrow> zone_result list \<Rightarrow> app \<Rightarrow>
   response \<times> app" where
  "handler_zones wd now imageBuffer bgKey [] results a = (Results results, a)"
| "handler_zones wd now imageBuffer bgKey (zone # zs) results a =
     (case handler_analysis wd a imageBuffer (getBackgroundFrame (bgKey zone) (database a)) zone of
        Inl e \<Rightarrow> (Status_500, a)
      | Inr analysis \<Rightarrow>
          (case handler_write now zone analysis a of
             (Inl e, a') \<Rightarrow> (Status_500, a')
           | (Inr result, a') \<Rightarrow>
               handler_zones wd now imageBuffer bgKey zs (results @ [result]) a'))"

definition select_zones :: "string list option \<Rightarrow> string option \<Rightarrow> store \<Rightarrow> zone list" where
  "select_zones zoneIds cameraId d =
     (let zs = getAllZones d;
          zs1 = (case zoneIds of None \<Rightarrow> zs | Some ids \<Rightarrow> filter (\<lambda>z. z_id z \<in> set ids) zs)
      in case str_or_null cameraId of
           None \<Rightarrow> zs1
         | Some cam \<Rightarrow>
             filter (\<lambda>z. z_camera_id z = Some cam \<or> str_or_null (z_camera_id z) = None) zs1)"

definition analyze_handler ::
  "world \<Rightarrow> int \<Rightarrow> image option \<Rightarrow> string list option \<Rightarrow> string option \<Rightarrow> app \<Rightarrow>
   response \<times> app" where
  "analyze_handler wd now img zoneIds cameraId a =
     (case img of
        None \<Rightarrow> (Status_400, a)
      | Some imageBuffer \<Rightarrow>
          (let zs = select_zones zoneIds cameraId (database a) in
           if zs = [] then (Status_400, a)
           else handler_zones wd now imageBuffer
                  (\<lambda>zone. case str_or_null (z_camera_id zone) of
                             Some c \<Rightarrow> c | None \<Rightarrow> ''default'')
                  zs [] a))"

definition analyze_stream_handler ::
  "world \<Rightarrow> int \<Rightarrow> string option \<Rightarrow> string list option \<Rightarrow> string option \<Rightarrow> app \<Rightarrow>
   response \<times> app" where
  "analyze_stream_handler wd now stream_url zoneIds cameraId a =
     (case str_or_null stream_url of
        None \<Rightarrow> (Status_400, a)
      | Some url \<Rightarrow>
          (case fetch_url wd url of
             None \<Rightarrow> (Status_400, a)
           | Some imageBuffer \<Rightarrow>
               handler_zones wd now imageBuffer
                 (\<lambda>zone. case str_or_null (z_camera_id zone) of
                            Some c \<Rightarrow> c
                          | None \<Rightarrow> (case str_or_null cameraId of
                                       Some c \<Rightarrow> c | None \<Rightarrow> ''default''))
                 (select_zones zoneIds cameraId (database a)) [] a))"

subsection \<open>The fields of the scheduler\<close>

definition rr_fields ::
  "app \<Rightarrow> string list \<times> int \<times> bool \<times> nat option \<times> int option \<times> bool \<times> string option list" where
  "rr_fields a = (cameras a, intervalMs a, enabled a, currentIndex a, intervalHandle a, onUpdate a, analysed a)"

section \<open>Scenarios\<close>

text \<open>Concrete inputs on which the theorems below are exercised.\<close>

definition zero_input :: zone_input where
  "zero_input = \<lparr> in_name = ''Bay A'', in_camera_id = Some ''cam1'',
     in_polygon = [(0, 0), (100, 0), (100, 100), (0, 100)],
     in_min_blob_area = Some 0, in_max_blob_area = Some 0, in_alarm_threshold = Some 0 \<rparr>"

text \<open>A store with one zone, and the same store once the count of the zone has gone from
  0 to 2, so that its session is open.\<close>

definition one_zone_store :: store where
  "one_zone_store =
     (case createZone 1000 ''z1'' zero_input empty_store of
        Inr (_, db) \<Rightarrow> db | Inl _ \<Rightarrow> empty_store)"

definition occupied_store :: store where
  "occupied_store = snd (logParkingEvent 5000 ''z1'' ''Bay A'' ''cam1'' 0 2 one_zone_store)"

definition after_delete :: store where
  "after_delete =
     (case deleteZone ''z1'' occupied_store of Inr (_, db) \<Rightarrow> db | Inl _ \<Rightarrow> occupied_store)"

definition initial_app :: app where
  "initial_app = \<lparr> database = empty_store, currentOccupancy = Map.empty,
     currentMode = Hailo_yolo, sent = [], cameras = [], intervalMs = 5000, enabled = False,
     currentIndex = Some 0, intervalHandle = None, onUpdate = False, analysed = [] \<rparr>"

definition tiny_frame :: image where
  "tiny_frame = Encoded \<lparr> data = [0, 0, 0, 0], width = 2, height = 2 \<rparr>"

definition car_reply :: hailo_reply where
  "car_reply = Http 200 (Json \<lparr> p_detections =
       Some [\<lparr> r_label = Some ''car'', r_confidence = Some (9 / 10),
               r_bbox = Some (Box_array 10 10 20 20) \<rparr>],
     p_objects = None, p_inferenceMs = Some 12, p_error = None \<rparr>)"

definition car_world :: world where
  "car_world = \<lparr> fetchFrame = (\<lambda>c. Some tiny_frame), fetch_url = (\<lambda>u. Some tiny_frame),
     hailo_ops = (\<lambda>f m. car_reply), elapsed_ms = 20 \<rparr>"

definition one_zone_app :: app where
  "one_zone_app = initial_app\<lparr>database := one_zone_store\<rparr>"

definition offline_world :: world where
  "offline_world = \<lparr> fetchFrame = (\<lambda>c. None), fetch_url = (\<lambda>u. None),
     hailo_ops = (\<lambda>f m. Fetch_failed), elapsed_ms = 0 \<rparr>"

definition after_analyze :: app where
  "after_analyze = snd (analyze_handler car_world 7000 (Some tiny_frame) None None one_zone_app)"

text \<open>The scheduler's next result for the zone after that request: no car.\<close>

definition no_cars :: rr_result where
  "no_cars = \<lparr> rr_camera_id = ''cam1'', rr_zone_id = ''z1'', rr_zone_name = ''Bay A'',
     rr_count = 0, rr_blobs = [], rr_alarm = False, rr_timestamp = 9000 \<rparr>"

definition after_exit :: app where
  "after_exit = snd (update_callback 9000 no_cars after_analyze)"

definition two_cars :: rr_result where
  "two_cars = \<lparr> rr_camera_id = ''cam1'', rr_zone_id = ''z1'', rr_zone_name = ''Bay A'',
     rr_count = 2, rr_blobs = [], rr_alarm = True, rr_timestamp = 5000 \<rparr>"

definition down_world :: world where
  "down_world = \<lparr> fetchFrame = (\<lambda>c. Some tiny_frame), fetch_url = (\<lambda>u. Some tiny_frame),
     hailo_ops = (\<lambda>f m. Http 503 Not_json), elapsed_ms = 20 \<rparr>"

definition square :: "point list" where
  "square = [(0, 0), (100, 0), (100, 100), (0, 100)]"

definition strict_options :: detect_options where
  "strict_options = \<lparr> minBlobArea = Some 1, maxBlobArea = Some 10,
     confidenceThreshold = Some (1 / 2), classes = Some [''car''] \<rparr>"

definition three_blobs :: "byte list" where
  "three_blobs = [255, 255, 0, 255,  0, 0, 0, 255,  255, 0, 255, 255]"

definition lone_pixel :: "byte list" where
  "lone_pixel = [0, 0, 0, 0, 0,  0, 0, 0, 0, 0,  0, 0, 255, 0, 0,  0, 0, 0, 0, 0,  0, 0, 0, 0, 0]"

text \<open>Three cameras with one zone each, the update callback set, and a run in which the
  snapshot of the first tick arrives only after the timer has fired for the second: the
  interval is one second, the snapshot takes a second and a half.\<close>

definition camera_zone :: "string \<Rightarrow> zone_input" where
  "camera_zone cam = zero_input\<lparr>in_camera_id := Some cam\<rparr>"

definition three_zone_store :: store where
  "three_zone_store =
     (case createZone 1000 ''za'' (camera_zone ''a'') empty_store of
        Inl _ \<Rightarrow> empty_store
      | Inr (_, d1) \<Rightarrow>
          (case createZone 2000 ''zb'' (camera_zone ''b'') d1 of
             Inl _ \<Rightarrow> d1
           | Inr (_, d2) \<Rightarrow>
               (case createZone 3000 ''zc'' (camera_zone ''c'') d2 of
                  Inl _ \<Rightarrow> d2
                | Inr (_, d3) \<Rightarrow> d3)))"

definition three_camera_app :: app where
  "three_camera_app = initial_app\<lparr>database := three_zone_store, onUpdate := True\<rparr>"

definition overlapping :: "event list" where
  "overlapping =
     [Start [''a'', ''b'', ''c''] 1000, Fire,
      Resume 0 car_world 11500, Resume 0 car_world 11600, Resume 0 car_world 11600,
      Resume 0 car_world 11700, Resume 0 car_world 11800, Resume 0 car_world 11800,
      Fire,
      Resume 0 car_world 12100, Resume 0 car_world 12200, Resume 0 car_world 12200]"

definition overlapped :: "app \<times> tick list" where
  "overlapped = run overlapping (three_camera_app, [])"




section \<open>The event logger\<close>

lemma js_round_div_exact: "b > 0 \<Longrightarrow> js_round_div (k * b) b = k"
proof -
  assume b: "b > 0"
  have "(2 * (k * b) + b) div (2 * b) = (b + k * (2 * b)) div (2 * b)"
    by (simp add: algebra_simps)
  also have "\<dots> = b div (2 * b) + k"
    using b by (subst div_mult_self1) auto
  also have "b div (2 * b) = 0"
    using b by simp
  finally show ?thesis
    by (simp add: js_round_div_def)
qed

text \<open>
  Claim C1. One call of the event logger with previous count \<open>prev\<close> and new count \<open>new\<close>,
  for a zone whose row exists (or on a connection that does not enforce the foreign keys),
  so that the insert is accepted: the call does not throw;
  from 0 to a positive count it records an entry event and opens a session with the
  current time and the new count; from a positive count to 0 it records an exit event,
  which takes its entry time and its duration from the session when there is one and then
  closes it, and has neither when there is none; any other change records an
  occupancy change and leaves the sessions alone; no change records nothing and leaves the
  whole store as it was. The duration is the time since the session's entry in seconds,
  rounded to a whole number (the clock counts milliseconds); it is exact when that time is
  a whole number of seconds. A recorded event has a duration iff it is an exit and the
  zone had a session.
\<close>

theorem logParkingEvent_state_machine:
  assumes r: "logParkingEvent now z zn cam prev new db = (res, db')"
    and fk: "may_reference z db"
  shows "(\<exists>ev. res = Inr ev) \<and>
         (prev = 0 \<and> new > 0 \<longrightarrow>
            (\<exists>e. res = Inr (Some e) \<and> ev_type e = Entry \<and> entry_time e = Some now \<and>
                 exit_time e = None \<and> duration_seconds e = None \<and>
                 activeZoneSessions db' =
                   (activeZoneSessions db)(z \<mapsto> \<lparr>entryTime = now, s_count = new\<rparr>))) \<and>
         (prev > 0 \<and> new = 0 \<longrightarrow>
            (\<exists>e. res = Inr (Some e) \<and> ev_type e = Exit \<and> exit_time e = Some now \<and>
               (case activeZoneSessions db z of
                  Some s \<Rightarrow>
                    duration_seconds e = Some (js_round_div (now - entryTime s) 1000) \<and>
                    (\<forall>d. now - entryTime s = d * 1000 \<longrightarrow> duration_seconds e = Some d) \<and>
                    entry_time e = Some (entryTime s) \<and>
                    activeZoneSessions db' = (activeZoneSessions db)(z := None)
                | None \<Rightarrow>
                    duration_seconds e = None \<and> entry_time e = None \<and>
                    activeZoneSessions db' = activeZoneSessions db))) \<and>
         (prev \<noteq> new \<and> \<not> (prev = 0 \<and> new > 0) \<and> \<not> (prev > 0 \<and> new = 0) \<longrightarrow>
            (\<exists>e. res = Inr (Some e) \<and> ev_type e = Occupancy_change \<and>
                 duration_seconds e = None \<and> entry_time e = None \<and> exit_time e = None \<and>
                 activeZoneSessions db' = activeZoneSessions db)) \<and>
         (prev = new \<longrightarrow> res = Inr None \<and> db' = db) \<and>
         (\<forall>e. res = Inr (Some e) \<longrightarrow>
            parking_events db' = parking_events db @ [e] \<and>
            ev_zone_id e = z \<and> ev_zone_name e = zn \<and> ev_camera_id e = cam \<and>
            count_before e = prev \<and> count_after e = new \<and>
            (duration_seconds e \<noteq> None \<longleftrightarrow>
               ev_type e = Exit \<and> activeZoneSessions db z \<noteq> None))"
  using r fk
  by (auto simp: logParkingEvent_def insert_event_def may_reference_def zone_exists_def
           Let_def js_round_div_exact
           split: if_splits option.splits)

theorem logParkingEvent_state_machine_witness:
  "may_reference ''z1'' occupied_store \<and>
   (\<exists>e db'. logParkingEvent 20000 ''z1'' ''Bay A'' ''cam1'' 2 0 occupied_store =
               (Inr (Some e), db') \<and>
      ev_type e = Exit \<and> duration_seconds e = Some 15 \<and> entry_time e = Some 5000 \<and>
      exit_time e = Some 20000 \<and> activeZoneSessions db' ''z1'' = None)"
proof -
  obtain res db' where
    r: "logParkingEvent 20000 ''z1'' ''Bay A'' ''cam1'' 2 0 occupied_store = (res, db')"
    by (cases "logParkingEvent 20000 ''z1'' ''Bay A'' ''cam1'' 2 0 occupied_store")
  have z: "zones occupied_store = zones one_zone_store"
    "foreign_keys occupied_store = foreign_keys one_zone_store"
    "activeZoneSessions occupied_store ''z1'' = Some \<lparr>entryTime = 5000, s_count = 2\<rparr>"
    by (simp_all add: occupied_store_def logParkingEvent_def insert_event_def Let_def)
  have fk: "may_reference ''z1'' occupied_store"
    by (simp add: may_reference_def zone_exists_def z one_zone_store_def createZone_def
        empty_store_def Let_def)
  from logParkingEvent_state_machine[OF r fk] z(3) r fk show ?thesis
    by (auto simp: js_round_div_def)
qed

text \<open>
  On a connection that enforces the foreign keys, a call for a zone id that has no zone
  row throws whenever the two counts differ: no event is recorded. The session map has
  been written by then.
\<close>

lemma logParkingEvent_rejected:
  assumes "\<not> may_reference z db" "prev \<noteq> new"
  shows "fst (logParkingEvent now z zn cam prev new db) = Inl Constraint_foreign_key \<and>
         parking_events (snd (logParkingEvent now z zn cam prev new db)) = parking_events db"
  using assms
  by (auto simp: logParkingEvent_def insert_event_def may_reference_def zone_exists_def
           Let_def split: option.splits)

section \<open>Creating and deleting zones\<close>

lemma find_append_fresh:
  "\<forall>z \<in> set xs. \<not> P z \<Longrightarrow> P r \<Longrightarrow> find P (xs @ [r]) = Some r"
  by (induction xs) auto

text \<open>
  Claim C10. Creating a zone under an id that is not taken succeeds, and the zone read
  back holds the default wherever the supplied \<open>min_blob_area\<close>, \<open>max_blob_area\<close> or
  \<open>alarm_threshold\<close> is missing or 0: 500, 50000 and 1. A supplied 0 is therefore never
  stored, and none of the three fields of a fresh zone is 0.
\<close>

theorem createZone_defaults:
  assumes fresh: "\<forall>z \<in> set (zones db). z_id z \<noteq> i"
  shows "\<exists>z db'. createZone now i inp db = Inr (Some z, db') \<and>
           getZone i db' = Some z \<and>
           min_blob_area z = num_or (in_min_blob_area inp) 500 \<and>
           max_blob_area z = num_or (in_max_blob_area inp) 50000 \<and>
           alarm_threshold z = num_or (in_alarm_threshold inp) 1 \<and>
           (in_min_blob_area inp = Some 0 \<longrightarrow> min_blob_area z = 500) \<and>
           (in_max_blob_area inp = Some 0 \<longrightarrow> max_blob_area z = 50000) \<and>
           (in_alarm_threshold inp = Some 0 \<longrightarrow> alarm_threshold z = 1) \<and>
           (in_min_blob_area inp = None \<longrightarrow> min_blob_area z = 500) \<and>
           (in_max_blob_area inp = None \<longrightarrow> max_blob_area z = 50000) \<and>
           (in_alarm_threshold inp = None \<longrightarrow> alarm_threshold z = 1) \<and>
           min_blob_area z \<noteq> 0 \<and> max_blob_area z \<noteq> 0 \<and> alarm_threshold z \<noteq> 0"
proof -
  let ?row = "\<lparr> z_id = i, z_name = in_name inp,
                 z_camera_id = str_or_null (in_camera_id inp),
                 z_polygon = in_polygon inp,
                 min_blob_area = num_or (in_min_blob_area inp) 500,
                 max_blob_area = num_or (in_max_blob_area inp) 50000,
                 alarm_threshold = num_or (in_alarm_threshold inp) 1,
                 created_at = now, updated_at = now \<rparr>"
  let ?db' = "db\<lparr>zones := zones db @ [?row]\<rparr>"
  have g: "getZone i ?db' = Some ?row"
    using fresh by (simp add: getZone_def find_append_fresh)
  have c: "createZone now i inp db = Inr (Some ?row, ?db')"
    using fresh g by (auto simp: createZone_def Let_def)
  have nz: "\<And>v d. d \<noteq> 0 \<Longrightarrow> num_or v d \<noteq> 0"
    by (simp add: num_or_def split: option.splits)
  show ?thesis
    using c g nz by (auto simp: num_or_def)
qed

theorem createZone_defaults_witness:
  "\<exists>z db'. createZone 1000 ''z1'' zero_input empty_store = Inr (Some z, db') \<and>
      min_blob_area z = 500 \<and> max_blob_area z = 50000 \<and> alarm_threshold z = 1"
proof -
  have fresh: "\<forall>z \<in> set (zones empty_store). z_id z \<noteq> ''z1''"
    by (simp add: empty_store_def)
  from createZone_defaults[OF fresh, of 1000 zero_input] show ?thesis
    by (auto simp: zero_input_def)
qed

lemma set_by_zone_rows:
  "set (by_zone_rows es) = group_stats es ` (\<lambda>e. (ev_zone_id e, ev_zone_name e)) ` set es"
  by (simp add: by_zone_rows_def)

text \<open>
  What \<open>deleteZone\<close> does on every store: it never fails on a foreign key, because the
  rows of the two child tables are gone when the zone row is deleted; it reports whether a
  zone row had the id; it removes the zone's rows from the three tables and keeps every
  other row; and the per-zone statistics read afterwards have no row for the zone. It
  leaves the session map as it was.
\<close>

lemma deleteZone_cascade:
  "\<exists>db'. deleteZone i db = Inr (zone_exists i db, db') \<and>
         zones db' = filter (\<lambda>z. z_id z \<noteq> i) (zones db) \<and>
         occupancy_log db' = filter (\<lambda>r. ol_zone_id r \<noteq> i) (occupancy_log db) \<and>
         parking_events db' = filter (\<lambda>e. ev_zone_id e \<noteq> i) (parking_events db) \<and>
         activeZoneSessions db' = activeZoneSessions db \<and>
         (\<forall>s \<in> set (byZone (getParkingStats since db')). st_zone_id s \<noteq> i)"
proof -
  let ?db2 = "delete_event_rows i (delete_occupancy_rows i db)"
  let ?db' = "?db2\<lparr>zones := filter (\<lambda>z. z_id z \<noteq> i) (zones ?db2)\<rparr>"
  have nr: "\<not> referenced i ?db2"
    by (simp add: referenced_def delete_event_rows_def delete_occupancy_rows_def)
  have len: "(0 < length (filter (\<lambda>z. z_id z = i) (zones db))) = zone_exists i db"
    by (auto simp: zone_exists_def filter_empty_conv)
  have d: "deleteZone i db = Inr (zone_exists i db, ?db')"
    using nr len
    by (simp add: deleteZone_def delete_zone_rows_def Let_def delete_event_rows_def
        delete_occupancy_rows_def)
  have pe: "parking_events ?db' = filter (\<lambda>e. ev_zone_id e \<noteq> i) (parking_events db)"
    by (simp add: delete_event_rows_def delete_occupancy_rows_def)
  have t: "zones ?db' = filter (\<lambda>z. z_id z \<noteq> i) (zones db)"
    "occupancy_log ?db' = filter (\<lambda>r. ol_zone_id r \<noteq> i) (occupancy_log db)"
    "activeZoneSessions ?db' = activeZoneSessions db"
    by (simp_all add: delete_event_rows_def delete_occupancy_rows_def)
  have "\<forall>s \<in> set (byZone (getParkingStats since ?db')). st_zone_id s \<noteq> i"
    by (auto simp: getParkingStats_def Let_def set_by_zone_rows pe group_stats_def
        since_rows_def split: option.splits)
  with d t pe show ?thesis
    by blast
qed

text \<open>The order of the three statements matters: with the keys enforced, the delete of
  the zone row alone fails while the zone has an event row.\<close>

lemma zone_row_first_fails:
  "delete_zone_rows ''z1'' occupied_store = Inl Constraint_foreign_key"
  by (simp add: occupied_store_def one_zone_store_def createZone_def logParkingEvent_def
      insert_event_def may_reference_def zone_exists_def referenced_def empty_store_def
      zero_input_def delete_zone_rows_def Let_def getZone_def)

text \<open>
  Claim C8, at a store where zone \<open>z1\<close> exists and has an open session: \<open>deleteZone\<close>
  returns true and no zone row, event row or occupancy row is left, yet the statistics read
  afterwards still count one occupied zone, because the session of the deleted zone stays
  in the session map.
\<close>

theorem deleteZone_stale_session:
  "(\<exists>db'. deleteZone ''z1'' occupied_store = Inr (True, db')) \<and>
   zones after_delete = [] \<and>
   parking_events after_delete = [] \<and>
   occupancy_log after_delete = [] \<and>
   totalEntries (getParkingStats None after_delete) = 0 \<and>
   byZone (getParkingStats None after_delete) = [] \<and>
   currentOccupied (getParkingStats None after_delete) = 1"
  by (simp add: after_delete_def occupied_store_def one_zone_store_def createZone_def
      logParkingEvent_def insert_event_def may_reference_def zone_exists_def referenced_def
      empty_store_def zero_input_def deleteZone_def delete_zone_rows_def
      delete_event_rows_def delete_occupancy_rows_def getParkingStats_def Let_def
      getZone_def since_rows_def count_type_def by_zone_rows_def)

section \<open>The scheduler\<close>

text \<open>The analysis of a camera changes the store, the occupancy map and the messages; it
  never touches the scheduler's own variables, nor the zone table.\<close>

lemma update_callback_rr: "rr_fields (snd (update_callback now result a)) = rr_fields a"
  by (simp add: update_callback_def rr_fields_def Let_def
      split: prod.splits option.splits sum.splits)

lemma record_analysis_rr: "rr_fields (snd (record_analysis now cam z an a)) = rr_fields a"
  using update_callback_rr
  by (simp add: record_analysis_def Let_def rr_fields_def split: sum.splits)

lemma logParkingEvent_zones:
  "zones (snd (logParkingEvent now z zn cam prev new db)) = zones db"
  by (simp add: logParkingEvent_def insert_event_def Let_def split: option.splits)

lemma update_callback_zones:
  "zones (database (snd (update_callback now result a))) = zones (database a)"
proof -
  let ?prev = "case currentOccupancy a (rr_zone_id result) of
                 None \<Rightarrow> 0 | Some prevOccupancy \<Rightarrow> o_count prevOccupancy"
  let ?a1 = "a\<lparr>currentOccupancy := (currentOccupancy a)(rr_zone_id result \<mapsto>
                    \<lparr> o_count = rr_count result, o_blobs = rr_blobs result,
                      o_timestamp = rr_timestamp result \<rparr>)\<rparr>"
  let ?l = "logParkingEvent now (rr_zone_id result) (rr_zone_name result)
                   (if rr_camera_id result = [] then [] else rr_camera_id result)
                   ?prev (rr_count result) (database ?a1)"
  have "zones (snd ?l) = zones (database a)"
    using logParkingEvent_zones[of now "rr_zone_id result" "rr_zone_name result" _ ?prev
        "rr_count result" "database ?a1"] by simp
  then show ?thesis
    by (cases ?l) (auto simp: update_callback_def Let_def split: sum.splits option.splits)
qed

lemma record_analysis_zones:
  "zones (database (snd (record_analysis now cam z an a))) = zones (database a)"
proof (cases "logOccupancy now (z_id z) (count an) (Some (blobs an)) (database a)")
  case (Inl e)
  then show ?thesis by (simp add: record_analysis_def Let_def)
next
  case (Inr d)
  then have d: "zones d = zones (database a)"
    by (auto simp: logOccupancy_def split: if_splits)
  show ?thesis
    using Inr d update_callback_zones[of now _ "a\<lparr>database := d\<rparr>"]
    by (simp add: record_analysis_def Let_def)
qed

text \<open>Inside the scheduler the callback runs only once the occupancy row of the zone has
  been accepted, and then the insert of the event logger is accepted as well: the one
  exception of the store in the loop body is that of the occupancy row, which leaves the
  state as it was.\<close>

lemma record_analysis_throws:
  assumes "record_analysis now cam zone an a = (Some e, a')"
  shows "a' = a \<and> \<not> may_reference (z_id zone) (database a)"
  using assms
  by (auto simp: record_analysis_def update_callback_def logOccupancy_def
      logParkingEvent_def insert_event_def may_reference_def zone_exists_def Let_def
      split: sum.splits if_splits option.splits prod.splits)

lemma analyze_zones_rr:
  "rr_fields (analyze_zones now cam f bg zs a) = rr_fields a \<and>
   zones (database (analyze_zones now cam f bg zs a)) = zones (database a)"
proof (induction zs arbitrary: a)
  case Nil
  then show ?case by simp
next
  case (Cons z zs)
  show ?case
  proof (cases "analyzeFrame f bg (z_polygon z)
      \<lparr> opt_threshold = None, opt_minBlobArea = Some (min_blob_area z),
        opt_maxBlobArea = Some (max_blob_area z), opt_morphIterations = None \<rparr>")
    case (Inl e)
    then show ?thesis by simp
  next
    case (Inr an)
    obtain t a1 where ra: "record_analysis now cam z an a = (t, a1)"
      by (cases "record_analysis now cam z an a")
    have "rr_fields a1 = rr_fields a" "zones (database a1) = zones (database a)"
      using record_analysis_rr[of now cam z an a] record_analysis_zones[of now cam z an a] ra
      by simp_all
    with Cons.IH[of a1] Inr ra show ?thesis
      by (cases t) simp_all
  qed
qed

text \<open>A tick that runs to its end advances the cursor by one, on the camera list as it is
  then, and changes nothing else of the scheduler.\<close>

lemma finish_rr:
  "cameras (finish wd now t a) = cameras a \<and> enabled (finish wd now t a) = enabled a \<and>
   intervalHandle (finish wd now t a) = intervalHandle a \<and>
   analysed (finish wd now t a) = analysed a \<and>
   zones (database (finish wd now t a)) = zones (database a) \<and>
   currentIndex (finish wd now t a) = next_index (currentIndex a) (length (cameras a))"
proof -
  have r: "rr_fields (analyze_zones now cam f bg zs a) = rr_fields a"
    "zones (database (analyze_zones now cam f bg zs a)) = zones (database a)" for cam f bg zs
    using analyze_zones_rr[of now cam f bg zs a] by simp_all
  show ?thesis
  proof (cases t)
    case (Fetching cam zs)
    show ?thesis
    proof (cases "fetchFrame wd cam")
      case None
      with Fetching show ?thesis by (simp add: finish_def)
    next
      case (Some f)
      with Fetching r[of cam f "getBackgroundFrame cam (database a)" zs] show ?thesis
        by (simp add: finish_def rr_fields_def)
    qed
  next
    case (Analysing cam f bg zs)
    with r[of cam f bg zs] show ?thesis by (simp add: finish_def rr_fields_def)
  next
    case Returning
    then show ?thesis by (simp add: finish_def)
  qed
qed

text \<open>The pieces of one tick in flight, run one after the other, end in the state of
  \<open>finish\<close> with no tick in flight.\<close>

lemma run_Nil: "run [] s = s"
  by (simp add: run_def)

lemma run_Cons: "run (e # es) s = run es (step e s)"
  by (simp add: run_def)

lemma run_append: "run (es @ fs) s = run fs (run es s)"
  by (simp add: run_def)

lemma pieces_idle: "run (pieces wd now n) (a, []) = (a, [])"
  by (induction n) (simp_all add: pieces_def run_Nil run_Cons)

lemma finish_pieces:
  "pieces_left t \<le> n \<Longrightarrow> run (pieces wd now n) (a, [t]) = (finish wd now t a, [])"
proof (induction n arbitrary: t a)
  case 0
  then show ?case by (cases t) simp_all
next
  case (Suc n)
  have unfold: "run (pieces wd now (Suc n)) s = run (pieces wd now n) (step (Resume 0 wd now) s)"
    for s by (simp add: pieces_def run_Cons)
  show ?case
  proof (cases t)
    case Returning
    then show ?thesis
      by (simp add: unfold pieces_idle finish_def)
  next
    case (Fetching cam zs)
    show ?thesis
    proof (cases "fetchFrame wd cam")
      case None
      have "run (pieces wd now n) (a, [Returning]) = (finish wd now Returning a, [])"
        using Suc.prems Fetching by (intro Suc.IH) simp
      with None Fetching show ?thesis
        by (simp add: unfold finish_def)
    next
      case (Some f)
      let ?t = "Analysing cam f (getBackgroundFrame cam (database a)) zs"
      have "run (pieces wd now n) (a, [?t]) = (finish wd now ?t a, [])"
        using Suc.prems Fetching by (intro Suc.IH) simp
      with Some Fetching show ?thesis
        by (simp add: unfold finish_def)
    qed
  next
    case (Analysing cam f bg zs)
    show ?thesis
    proof (cases zs)
      case Nil
      have "run (pieces wd now n) (a, [Returning]) = (finish wd now Returning a, [])"
        using Suc.prems Analysing Nil by (intro Suc.IH) simp
      with Nil Analysing show ?thesis
        by (simp add: unfold finish_def)
    next
      case (Cons z zs')
      let ?an = "analyzeFrame f bg (z_polygon z)
        \<lparr> opt_threshold = None, opt_minBlobArea = Some (min_blob_area z),
          opt_maxBlobArea = Some (max_blob_area z), opt_morphIterations = None \<rparr>"
      have ret: "run (pieces wd now n) (b, [Returning]) = (finish wd now Returning b, [])" for b
        using Suc.prems Analysing Cons by (intro Suc.IH) simp
      show ?thesis
      proof (cases ?an)
        case (Inl e)
        with ret[of a] Cons Analysing show ?thesis
          by (simp add: unfold finish_def)
      next
        case (Inr analysis)
        obtain thrown a1 where ra: "record_analysis now cam z analysis a = (thrown, a1)"
          by (cases "record_analysis now cam z analysis a")
        show ?thesis
        proof (cases thrown)
          case (Some e)
          with ret[of a1] Cons Analysing Inr ra show ?thesis
            by (simp add: unfold finish_def)
        next
          case None
          show ?thesis
          proof (cases zs')
            case Nil
            with ret[of a1] Cons Analysing Inr ra None show ?thesis
              by (simp add: unfold finish_def)
          next
            case c2: (Cons z2 zs2)
            let ?t = "Analysing cam f bg zs'"
            have "run (pieces wd now n) (a1, [?t]) = (finish wd now ?t a1, [])"
              using Suc.prems Analysing Cons by (intro Suc.IH) simp
            with c2 Cons Analysing Inr ra None show ?thesis
              by (simp add: unfold finish_def)
          qed
        qed
      qed
    qed
  qed
qed

text \<open>A tick has at most one piece per zone of the table, and three more.\<close>

lemma processNext_tick:
  assumes "processNext a = (a1, Some t)"
  shows "pieces_left t \<le> length (zones (database a)) + 3 \<and> database a1 = database a"
proof -
  have len: "length (filter P (getAllZones d)) \<le> length (zones d)" for P d
    using length_filter_le[of P "getAllZones d"] by (simp add: getAllZones_def)
  have b: "pieces_left (analyzeCamera c b) \<le> length (zones (database b)) + 3" for c b
    using len[of _ "database b"]
    by (auto simp: analyzeCamera_def Let_def le_SucI split: option.splits)
  have "pieces_left (analyzeCamera c (a\<lparr>analysed := x\<rparr>)) \<le> length (zones (database a)) + 3"
    for c x
    using b[of c "a\<lparr>analysed := x\<rparr>"] by simp
  with assms show ?thesis
    by (auto simp: processNext_def Let_def split: if_splits)
qed

lemma tick_alone_keeps:
  "intervalHandle (tick_alone w a) = intervalHandle a \<and>
   zones (database (tick_alone w a)) = zones (database a)"
proof (cases "processNext a")
  case (Pair a1 t)
  have a1: "intervalHandle a1 = intervalHandle a" "zones (database a1) = zones (database a)"
    using Pair by (auto simp: processNext_def Let_def split: if_splits)
  show ?thesis
  proof (cases t)
    case None
    with Pair a1 show ?thesis by (simp add: tick_alone_def)
  next
    case (Some tk)
    with Pair a1 finish_rr[of "fst w" "snd w" tk a1] show ?thesis
      by (simp add: tick_alone_def)
  qed
qed

text \<open>The events of a whole tick, from a state with the timer armed and no tick in flight,
  end in the state of \<open>tick_alone\<close> with no tick in flight; and so do the events of any
  number of whole ticks, one after the other.\<close>

lemma whole_tick_alone:
  assumes "intervalHandle a \<noteq> None" "length (zones (database a)) + 3 \<le> n"
  shows "run (whole_tick n w) (a, []) = (tick_alone w a, [])"
proof (cases "processNext a")
  case (Pair a1 t)
  have armed: "(intervalHandle a = None) = False"
    using assms(1) by simp
  show ?thesis
  proof (cases t)
    case None
    with Pair show ?thesis
      by (simp add: whole_tick_def run_Cons pieces_idle tick_alone_def armed)
  next
    case (Some tk)
    have "pieces_left tk \<le> n"
      using processNext_tick[of a a1 tk] Pair Some assms(2) by simp
    from finish_pieces[OF this, of "fst w" "snd w" a1] Pair Some show ?thesis
      by (simp add: whole_tick_def run_Cons tick_alone_def armed)
  qed
qed

lemma sequential_run:
  assumes "intervalHandle a \<noteq> None" "length (zones (database a)) + 3 \<le> n"
  shows "run (concat (map (whole_tick n) ws)) (a, []) = (foldl (\<lambda>b w. tick_alone w b) a ws, [])"
  using assms
proof (induction ws arbitrary: a)
  case Nil
  then show ?case by (simp add: run_Nil)
next
  case (Cons w ws)
  have k: "intervalHandle (tick_alone w a) \<noteq> None"
    "length (zones (database (tick_alone w a))) + 3 \<le> n"
    using tick_alone_keeps[of w a] Cons.prems by simp_all
  from Cons.IH[OF k] whole_tick_alone[OF Cons.prems, of w] show ?case
    by (simp add: run_append)
qed

text \<open>Such a tick takes the camera under the cursor and moves the cursor on by one.\<close>

lemma tick_alone_step:
  assumes "enabled a" "cameras a \<noteq> []" "currentIndex a = Some i" "i < length (cameras a)"
  shows "analysed (tick_alone w a) = analysed a @ [Some (cameras a ! i)]"
    and "currentIndex (tick_alone w a) = Some ((i + 1) mod length (cameras a))"
    and "cameras (tick_alone w a) = cameras a"
    and "enabled (tick_alone w a)"
proof -
  let ?a1 = "a\<lparr>analysed := analysed a @ [Some (cameras a ! i)]\<rparr>"
  have p: "processNext a = (?a1, Some (analyzeCamera (Some (cameras a ! i)) ?a1))"
    using assms by (simp add: processNext_def Let_def rd_def)
  have t: "tick_alone w a = finish (fst w) (snd w) (analyzeCamera (Some (cameras a ! i)) ?a1) ?a1"
    by (simp add: tick_alone_def p)
  note f = finish_rr[of "fst w" "snd w" "analyzeCamera (Some (cameras a ! i)) ?a1" ?a1]
  show "analysed (tick_alone w a) = analysed a @ [Some (cameras a ! i)]"
    and "currentIndex (tick_alone w a) = Some ((i + 1) mod length (cameras a))"
    and "cameras (tick_alone w a) = cameras a"
    and "enabled (tick_alone w a)"
    using f assms unfolding t by (simp_all add: next_index_def)
qed

lemma ticks_cycle:
  assumes "enabled a" "cameras a = C" "C \<noteq> []" "currentIndex a = Some i" "i < length C"
  shows "analysed (foldl (\<lambda>b w. tick_alone w b) a ws) =
           analysed a @ map (\<lambda>k. Some (C ! ((i + k) mod length C))) [0..<length ws] \<and>
         currentIndex (foldl (\<lambda>b w. tick_alone w b) a ws) = Some ((i + length ws) mod length C) \<and>
         cameras (foldl (\<lambda>b w. tick_alone w b) a ws) = C \<and>
         enabled (foldl (\<lambda>b w. tick_alone w b) a ws)"
  using assms
proof (induction ws arbitrary: a i)
  case Nil
  then show ?case by simp
next
  case (Cons w ws)
  let ?a = "tick_alone w a"
  have s: "analysed ?a = analysed a @ [Some (C ! i)]"
    "currentIndex ?a = Some ((i + 1) mod length C)" "cameras ?a = C" "enabled ?a"
    using tick_alone_step[of a i w] Cons.prems by simp_all
  have lt: "(i + 1) mod length C < length C"
    using Cons.prems by simp
  note ih = Cons.IH[OF s(4) s(3) Cons.prems(3) s(2) lt]
  have m: "map (\<lambda>k. Some (C ! ((i + k) mod length C))) [0..<length (w # ws)] =
        Some (C ! i) # map (\<lambda>k. Some (C ! (((i + 1) mod length C + k) mod length C))) [0..<length ws]"
  proof -
    have "[0..<length (w # ws)] = 0 # map Suc [0..<length ws]"
      by (simp add: upt_conv_Cons map_Suc_upt del: upt_Suc)
    then show ?thesis
      using Cons.prems by (simp add: comp_def mod_add_left_eq add.assoc del: upt_Suc)
  qed
  show ?case
    using ih s m by (simp add: mod_add_left_eq add.assoc del: upt_Suc)
qed

text \<open>
  When no tick overlaps another, the scheduler does go round the cameras. \<open>start\<close> with a
  camera list \<open>C\<close> that is not empty sets the cursor to 0, announces \<open>C[0]\<close>, leaves the tick
  for it in flight and arms the timer. If that tick runs to its end before the timer
  fires, and every later tick before the next firing, then the state is that of the whole
  ticks one after the other, no tick is in flight, the cameras announced and analysed are
  \<open>C[k mod |C|]\<close> for \<open>k = 0, 1, ...\<close> in this order, and after tick \<open>k\<close> the cursor is
  \<open>(k + 1) mod |C|\<close>. A call of \<open>processNext\<close> with the scheduler disabled or with no camera
  changes nothing and leaves no tick in flight, and after \<open>stop\<close> the timer does not fire.
\<close>

lemma round_robin_sequential:
  assumes ne: "C \<noteq> []" and n: "length (zones (database a)) + 3 \<le> n"
  shows "\<exists>a0 t0. start C iv a = (a0, Some t0) \<and>
           currentIndex a0 = Some 0 \<and> intervalHandle a0 = Some iv \<and>
           analysed a0 = analysed a @ [Some (C ! 0)] \<and>
           snd (run (Start C iv # pieces wd now n @ concat (map (whole_tick n) ws)) (a, [])) = [] \<and>
           fst (run (Start C iv # pieces wd now n @ concat (map (whole_tick n) ws)) (a, [])) =
             foldl (\<lambda>b w. tick_alone w b) (finish wd now t0 a0) ws \<and>
           analysed (foldl (\<lambda>b w. tick_alone w b) (finish wd now t0 a0) ws) =
             analysed a @ map (\<lambda>k. Some (C ! (k mod length C))) [0..<Suc (length ws)] \<and>
           currentIndex (foldl (\<lambda>b w. tick_alone w b) (finish wd now t0 a0) ws) =
             Some (Suc (length ws) mod length C)"
proof -
  let ?a1 = "a\<lparr>cameras := C, intervalMs := iv, enabled := True, currentIndex := Some 0\<rparr>"
  let ?a2 = "?a1\<lparr>analysed := analysed a @ [Some (C ! 0)]\<rparr>"
  let ?t0 = "analyzeCamera (Some (C ! 0)) ?a2"
  let ?a0 = "?a2\<lparr>intervalHandle := Some iv\<rparr>"
  have p: "processNext ?a1 = (?a2, Some ?t0)"
    using ne by (simp add: processNext_def Let_def rd_def)
  have st: "start C iv a = (?a0, Some ?t0)"
    by (simp add: start_def Let_def p)
  have pl: "pieces_left ?t0 \<le> n"
    using processNext_tick[OF p] n by simp
  let ?b = "finish wd now ?t0 ?a0"
  have fr: "cameras ?b = C" "enabled ?b" "intervalHandle ?b = Some iv"
    "analysed ?b = analysed a @ [Some (C ! 0)]"
    "zones (database ?b) = zones (database a)"
    "currentIndex ?b = Some (1 mod length C)"
    using finish_rr[of wd now ?t0 ?a0] ne by (simp_all add: next_index_def)
  have r1: "run (Start C iv # pieces wd now n) (a, []) = (?b, [])"
    using finish_pieces[OF pl, of wd now ?a0] by (simp add: run_Cons st)
  have ih: "intervalHandle ?b \<noteq> None" "length (zones (database ?b)) + 3 \<le> n"
    using fr n by simp_all
  have r2: "run (Start C iv # pieces wd now n @ concat (map (whole_tick n) ws)) (a, []) =
      (foldl (\<lambda>b w. tick_alone w b) ?b ws, [])"
    using sequential_run[OF ih, of ws] r1
    by (simp add: run_append[of "Start C iv # pieces wd now n", simplified])
  have lt: "1 mod length C < length C" using ne by (intro mod_less_divisor) simp
  from ticks_cycle[OF fr(2) fr(1) ne fr(6) lt, of ws]
  have t: "analysed (foldl (\<lambda>b w. tick_alone w b) ?b ws) =
      analysed ?b @ map (\<lambda>k. Some (C ! ((1 mod length C + k) mod length C))) [0..<length ws]"
    "currentIndex (foldl (\<lambda>b w. tick_alone w b) ?b ws) =
      Some ((1 mod length C + length ws) mod length C)"
    by simp_all
  have m: "map (\<lambda>k. Some (C ! (k mod length C))) [0..<Suc (length ws)] =
        Some (C ! 0) # map (\<lambda>k. Some (C ! ((1 mod length C + k) mod length C))) [0..<length ws]"
  proof -
    have "[0..<Suc (length ws)] = 0 # map Suc [0..<length ws]"
      by (simp add: upt_conv_Cons map_Suc_upt del: upt_Suc)
    then show ?thesis
      by (simp add: comp_def mod_add_left_eq del: upt_Suc)
  qed
  have a0: "currentIndex ?a0 = Some 0" "intervalHandle ?a0 = Some iv"
    "analysed ?a0 = analysed a @ [Some (C ! 0)]"
    by simp_all
  have an: "analysed (foldl (\<lambda>b w. tick_alone w b) ?b ws) =
      analysed a @ map (\<lambda>k. Some (C ! (k mod length C))) [0..<Suc (length ws)]"
    using t(1) fr(4) m by (simp del: upt_Suc)
  have ci: "currentIndex (foldl (\<lambda>b w. tick_alone w b) ?b ws) =
      Some (Suc (length ws) mod length C)"
    using t(2) by (simp add: mod_add_left_eq)
  from st a0 r2 an ci show ?thesis
    by (intro exI[of _ ?a0] exI[of _ ?t0]) (simp only: fst_conv snd_conv simp_thms)
qed

lemma processNext_idle:
  "\<not> enabled b \<or> cameras b = [] \<Longrightarrow> processNext b = (b, None)"
  by (auto simp: processNext_def)

lemma stopped_timer: "step Fire (stop b, ts) = (stop b, ts)"
  by (simp add: stop_def)

text \<open>
  Claim C3, at a run in which a tick overlaps the next. Three cameras \<open>a\<close>, \<open>b\<close>, \<open>c\<close> with
  one zone each; \<open>start\<close> with an interval of one second; the snapshot of \<open>a\<close> takes longer
  than that. When the timer fires, the first tick still awaits its snapshot and has not
  advanced the cursor: the second tick reads cursor 0 and takes camera \<open>a\<close> again, where
  tick 1 is to analyse \<open>C[1] = b\<close>. Both ticks then advance the cursor, so the third tick
  takes \<open>c\<close>. After the three ticks the occupancy rows are those of the zones of \<open>a\<close>, \<open>a\<close>
  and \<open>c\<close>, and the zone of \<open>b\<close> has no occupancy entry: \<open>b\<close> was skipped.
\<close>

theorem overlapping_ticks_repeat_camera:
  "analysed (fst (run (take 2 overlapping) (three_camera_app, []))) = [Some ''a'', Some ''a''] \<and>
   currentIndex (fst (run (take 2 overlapping) (three_camera_app, []))) = Some 0 \<and>
   length (snd (run (take 2 overlapping) (three_camera_app, []))) = 2 \<and>
   analysed (fst overlapped) = [Some ''a'', Some ''a'', Some ''c''] \<and>
   map ol_zone_id (occupancy_log (database (fst overlapped))) = [''za'', ''za'', ''zc''] \<and>
   currentOccupancy (fst overlapped) ''zb'' = None \<and>
   currentIndex (fst overlapped) = Some 0 \<and>
   snd overlapped = []"
  by code_simp

section \<open>The writers of the occupancy state\<close>

lemma handler_write_events:
  assumes "handler_write now zone analysis a = (res, a')"
  shows "parking_events (database a') = parking_events (database a) \<and>
         parking_seq (database a') = parking_seq (database a) \<and>
         activeZoneSessions (database a') = activeZoneSessions (database a) \<and>
         currentOccupancy a' = (currentOccupancy a)(z_id zone \<mapsto>
            \<lparr> o_count = count analysis, o_blobs = blobs analysis, o_timestamp = now \<rparr>) \<and>
         database a' =
           (case logOccupancy now (z_id zone) (count analysis) (Some (blobs analysis))
                   (database a) of
              Inl e \<Rightarrow> database a | Inr d \<Rightarrow> d)"
  using assms
  by (auto simp: handler_write_def Let_def logOccupancy_def split: sum.splits if_splits)

lemma handler_zones_events:
  "handler_zones wd now img bgKey zs results a = (resp, a') \<Longrightarrow>
     parking_events (database a') = parking_events (database a) \<and>
     parking_seq (database a') = parking_seq (database a) \<and>
     activeZoneSessions (database a') = activeZoneSessions (database a)"
proof (induction zs arbitrary: results a)
  case Nil
  then show ?case by simp
next
  case (Cons z zs)
  show ?case
  proof (cases "handler_analysis wd a img (getBackgroundFrame (bgKey z) (database a)) z")
    case (Inl e)
    with Cons.prems show ?thesis by simp
  next
    case (Inr an)
    obtain r a1 where w: "handler_write now z an a = (r, a1)"
      by (cases "handler_write now z an a")
    have hw: "parking_events (database a1) = parking_events (database a)"
      "parking_seq (database a1) = parking_seq (database a)"
      "activeZoneSessions (database a1) = activeZoneSessions (database a)"
      using handler_write_events[OF w] by blast+
    show ?thesis
    proof (cases r)
      case (Inl e)
      with Cons.prems Inr w have "a' = a1" by simp
      with hw show ?thesis by simp
    next
      case r: (Inr zr)
      from Cons.prems Inr w r
      have "handler_zones wd now img bgKey zs (results @ [zr]) a1 = (resp, a')"
        by simp
      from Cons.IH[OF this] hw show ?thesis
        by simp
    qed
  qed
qed

lemma analyze_handler_events:
  "analyze_handler wd now img zoneIds cameraId a = (resp, a') \<Longrightarrow>
     parking_events (database a') = parking_events (database a) \<and>
     activeZoneSessions (database a') = activeZoneSessions (database a)"
  using handler_zones_events
  by (fastforce simp: analyze_handler_def Let_def split: option.splits if_splits)

lemma analyze_stream_handler_events:
  "analyze_stream_handler wd now url zoneIds cameraId a = (resp, a') \<Longrightarrow>
     parking_events (database a') = parking_events (database a) \<and>
     activeZoneSessions (database a') = activeZoneSessions (database a)"
  using handler_zones_events
  by (fastforce simp: analyze_stream_handler_def Let_def split: option.splits if_splits)

lemma logParkingEvent_same: "logParkingEvent now z zn cam n n d = (Inr None, d)"
  by (auto simp: logParkingEvent_def)

text \<open>
  What each writer of the occupancy state does. The scheduler's update callback reads the
  previous count of the zone (0 when the zone has no entry), sets the zone's entry, and leaves the store as
  the event logger leaves it when called with the zone id, the zone name, the camera id,
  the previous and the new count: the guard \<open>prevCount \<noteq> result.count\<close> skips only the
  call that would record nothing. When the logger returns, the callback broadcasts the
  recorded event, if any, and then the occupancy update; when the logger throws, so does
  the callback, and nothing is broadcast. The handlers of /analyze and /analyze-stream set
  the zone's entry and append an occupancy row; they read no previous count and do not call
  the event logger: a request leaves the event table and the sessions as they were.
\<close>

lemma occupancy_writers:
  "(let prev = (case currentOccupancy a (rr_zone_id result) of
                  None \<Rightarrow> 0 | Some e \<Rightarrow> o_count e);
        thrown = fst (update_callback now result a);
        a' = snd (update_callback now result a);
        logged = logParkingEvent now (rr_zone_id result) (rr_zone_name result)
                   (rr_camera_id result) prev (rr_count result) (database a);
        update = Occupancy_update_rr (rr_zone_id result) (rr_zone_name result)
                   (rr_camera_id result) (rr_count result) (rr_alarm result)
                   (rr_timestamp result)
    in currentOccupancy a' = (currentOccupancy a)(rr_zone_id result \<mapsto>
          \<lparr> o_count = rr_count result, o_blobs = rr_blobs result,
            o_timestamp = rr_timestamp result \<rparr>) \<and>
       database a' = snd logged \<and>
       (case fst logged of
          Inl e \<Rightarrow> thrown = Some e \<and> sent a' = sent a
        | Inr None \<Rightarrow> thrown = None \<and> sent a' = sent a @ [update]
        | Inr (Some e) \<Rightarrow> thrown = None \<and> sent a' = sent a @ [Parking_event e, update])) \<and>
   (\<forall>zone analysis res a'. handler_write now zone analysis a = (res, a') \<longrightarrow>
       currentOccupancy a' = (currentOccupancy a)(z_id zone \<mapsto>
          \<lparr> o_count = count analysis, o_blobs = blobs analysis, o_timestamp = now \<rparr>) \<and>
       database a' =
         (case logOccupancy now (z_id zone) (count analysis) (Some (blobs analysis))
                 (database a) of
            Inl e \<Rightarrow> database a | Inr d \<Rightarrow> d) \<and>
       parking_events (database a') = parking_events (database a) \<and>
       activeZoneSessions (database a') = activeZoneSessions (database a)) \<and>
   (\<forall>wd img zoneIds cameraId resp a'.
       analyze_handler wd now img zoneIds cameraId a = (resp, a') \<longrightarrow>
       parking_events (database a') = parking_events (database a) \<and>
       activeZoneSessions (database a') = activeZoneSessions (database a)) \<and>
   (\<forall>wd url zoneIds cameraId resp a'.
       analyze_stream_handler wd now url zoneIds cameraId a = (resp, a') \<longrightarrow>
       parking_events (database a') = parking_events (database a) \<and>
       activeZoneSessions (database a') = activeZoneSessions (database a))"
proof -
  have cb: "let prev = (case currentOccupancy a (rr_zone_id result) of
                  None \<Rightarrow> 0 | Some e \<Rightarrow> o_count e);
        thrown = fst (update_callback now result a);
        a' = snd (update_callback now result a);
        logged = logParkingEvent now (rr_zone_id result) (rr_zone_name result)
                   (rr_camera_id result) prev (rr_count result) (database a);
        update = Occupancy_update_rr (rr_zone_id result) (rr_zone_name result)
                   (rr_camera_id result) (rr_count result) (rr_alarm result)
                   (rr_timestamp result)
    in currentOccupancy a' = (currentOccupancy a)(rr_zone_id result \<mapsto>
          \<lparr> o_count = rr_count result, o_blobs = rr_blobs result,
            o_timestamp = rr_timestamp result \<rparr>) \<and>
       database a' = snd logged \<and>
       (case fst logged of
          Inl e \<Rightarrow> thrown = Some e \<and> sent a' = sent a
        | Inr None \<Rightarrow> thrown = None \<and> sent a' = sent a @ [update]
        | Inr (Some e) \<Rightarrow> thrown = None \<and> sent a' = sent a @ [Parking_event e, update])"
    by (auto simp: update_callback_def Let_def logParkingEvent_same
        split: option.splits prod.splits sum.splits)
  have h1: "\<forall>zone analysis res a'. handler_write now zone analysis a = (res, a') \<longrightarrow>
       currentOccupancy a' = (currentOccupancy a)(z_id zone \<mapsto>
          \<lparr> o_count = count analysis, o_blobs = blobs analysis, o_timestamp = now \<rparr>) \<and>
       database a' =
         (case logOccupancy now (z_id zone) (count analysis) (Some (blobs analysis))
                 (database a) of
            Inl e \<Rightarrow> database a | Inr d \<Rightarrow> d) \<and>
       parking_events (database a') = parking_events (database a) \<and>
       activeZoneSessions (database a') = activeZoneSessions (database a)"
    using handler_write_events by blast
  have h2: "\<forall>wd img zoneIds cameraId resp a'.
       analyze_handler wd now img zoneIds cameraId a = (resp, a') \<longrightarrow>
       parking_events (database a') = parking_events (database a) \<and>
       activeZoneSessions (database a') = activeZoneSessions (database a)"
    using analyze_handler_events by blast
  have h3: "\<forall>wd url zoneIds cameraId resp a'.
       analyze_stream_handler wd now url zoneIds cameraId a = (resp, a') \<longrightarrow>
       parking_events (database a') = parking_events (database a) \<and>
       activeZoneSessions (database a') = activeZoneSessions (database a)"
    using analyze_stream_handler_events by blast
  from cb h1 h2 h3 show ?thesis
    by (intro conjI) assumption+
qed

text \<open>
  Claim C2, at a request to /analyze with the external detector reporting one car in zone
  \<open>z1\<close>, which had no entry: the request sets the count of \<open>z1\<close> to 1 and appends the
  occupancy row, and records no event and no session, where the event logger called with
  counts 0 and 1 records an entry. The scheduler reads its previous count from the same
  map: its next write for the zone, with no car, records an exit from 1 to 0 that has no
  entry time and no duration, and the event table holds an exit without an entry.
\<close>

theorem analyze_handler_logs_no_event:
  "currentOccupancy one_zone_app ''z1'' = None \<and>
   map_option o_count (currentOccupancy after_analyze ''z1'') = Some 1 \<and>
   map ol_count (occupancy_log (database after_analyze)) = [1] \<and>
   parking_events (database after_analyze) = [] \<and>
   activeZoneSessions (database after_analyze) ''z1'' = None \<and>
   map ev_type (parking_events (snd (logParkingEvent 7000 ''z1'' ''Bay A'' ''cam1'' 0 1
      (database one_zone_app)))) = [Entry] \<and>
   map (\<lambda>e. (ev_type e, count_before e, count_after e, entry_time e, duration_seconds e))
     (parking_events (database after_exit)) = [(Exit, 1, 0, None, None)]"
  by code_simp

lemma occupancy_writers_example:
  "fst (update_callback 5000 two_cars one_zone_app) = None \<and>
   map ev_type (parking_events (database (snd (update_callback 5000 two_cars one_zone_app)))) =
     [Entry] \<and>
   map_option o_count
     (currentOccupancy (snd (update_callback 5000 two_cars one_zone_app)) ''z1'') = Some 2 \<and>
   parking_events (database after_analyze) = parking_events (database one_zone_app)"
proof -
  have e: "analyze_handler car_world 7000 (Some tiny_frame) None None one_zone_app =
      (fst (analyze_handler car_world 7000 (Some tiny_frame) None None one_zone_app), after_analyze)"
    by (simp add: after_analyze_def)
  let ?logged = "logParkingEvent 5000 ''z1'' ''Bay A'' ''cam1'' 0 2 (database one_zone_app)"
  have l: "map ev_type (parking_events (snd ?logged)) = [Entry]"
    "\<exists>ev. fst ?logged = Inr (Some ev)"
    by (simp_all add: logParkingEvent_def insert_event_def Let_def one_zone_app_def
        initial_app_def one_zone_store_def createZone_def empty_store_def may_reference_def
        zone_exists_def)
  then obtain ev where ev: "fst ?logged = Inr (Some ev)"
    by blast
  have c: "currentOccupancy one_zone_app ''z1'' = None"
    by (simp add: one_zone_app_def initial_app_def)
  from occupancy_writers[of one_zone_app two_cars 5000] c l(1) ev
  have "fst (update_callback 5000 two_cars one_zone_app) = None \<and>
   map ev_type (parking_events (database (snd (update_callback 5000 two_cars one_zone_app)))) =
     [Entry] \<and>
   map_option o_count
     (currentOccupancy (snd (update_callback 5000 two_cars one_zone_app)) ''z1'') = Some 2"
    by (simp add: Let_def two_cars_def)
  moreover from occupancy_writers[of one_zone_app two_cars 7000] e
  have "parking_events (database after_analyze) = parking_events (database one_zone_app)"
    by (simp only: Let_def)
  ultimately show ?thesis by simp
qed

section \<open>Connected components\<close>

lemma in_bounds_finite: "finite {p. in_bounds w h p}"
proof -
  have "{p. in_bounds w h p} \<subseteq> {0..<w} \<times> {0..<h}"
    by (auto simp: in_bounds_def)
  then show ?thesis
    by (rule finite_subset) simp
qed

lemma pix_idx_inj:
  assumes "in_bounds w h p" "in_bounds w h q" "pix_idx w p = pix_idx w q"
  shows "p = q"
proof -
  obtain x y where p: "p = (x, y)" by (cases p)
  obtain x' y' where q: "q = (x', y')" by (cases q)
  have b: "0 \<le> x" "x < w" "0 \<le> y" "0 \<le> x'" "x' < w" "0 \<le> y'"
    using assms(1,2) by (auto simp: in_bounds_def p q)
  have "0 \<le> y * w + x" "0 \<le> y' * w + x'" using b by simp_all
  then have e: "y * w + x = y' * w + x'"
    using assms(3) by (simp add: pix_idx_def p q)
  have "(x + y * w) div w = y" "(x' + y' * w) div w = y'"
    using b by simp_all
  then have "y = y'" using e by (simp add: add.commute)
  then show ?thesis using e by (simp add: p q)
qed

lemma reach_subset: "reach U S \<subseteq> U"
proof
  fix x assume "x \<in> reach U S"
  then show "x \<in> U" by (induction rule: reach.induct) auto
qed

lemma reach_insert_out:
  assumes "p \<notin> U"
  shows "reach U (insert p S) = reach U S"
proof (intro equalityI subsetI)
  fix x assume "x \<in> reach U (insert p S)"
  then show "x \<in> reach U S"
    using assms by (induction rule: reach.induct) (auto intro: reach.intros)
next
  fix x assume "x \<in> reach U S"
  then show "x \<in> reach U (insert p S)"
    by (induction rule: reach.induct) (auto intro: reach.intros)
qed

lemma reach_insert_in:
  assumes "p \<in> U"
  shows "reach U (insert p S) = insert p (reach (U - {p}) ({q. adjacent p q} \<union> S))"
proof (intro equalityI subsetI)
  fix x assume "x \<in> reach U (insert p S)"
  then show "x \<in> insert p (reach (U - {p}) ({q. adjacent p q} \<union> S))"
  proof (induction rule: reach.induct)
    case (start s)
    then show ?case by (auto intro: reach.start)
  next
    case (step a b)
    show ?case
    proof (cases "b = p")
      case True
      then show ?thesis by simp
    next
      case False
      with step.hyps have bU: "b \<in> U - {p}" by simp
      show ?thesis
      proof (cases "a = p")
        case True
        with step.hyps have "b \<in> {q. adjacent p q} \<union> S" by simp
        with bU show ?thesis by (auto intro: reach.start)
      next
        case False
        with step.IH have "a \<in> reach (U - {p}) ({q. adjacent p q} \<union> S)" by simp
        with step.hyps bU show ?thesis by (auto intro: reach.step)
      qed
    qed
  qed
next
  fix x assume x: "x \<in> insert p (reach (U - {p}) ({q. adjacent p q} \<union> S))"
  have pr: "p \<in> reach U (insert p S)"
    using assms by (auto intro: reach.start)
  have sub: "reach (U - {p}) ({q. adjacent p q} \<union> S) \<subseteq> reach U (insert p S)"
  proof
    fix y assume "y \<in> reach (U - {p}) ({q. adjacent p q} \<union> S)"
    then show "y \<in> reach U (insert p S)"
    proof (induction rule: reach.induct)
      case (start s)
      then show ?case using pr by (auto intro: reach.start reach.step)
    next
      case (step a b)
      then show ?case by (auto intro: reach.step)
    qed
  qed
  from x pr sub show "x \<in> reach U (insert p S)" by blast
qed

lemma four_neighbours:
  "set [(x, y - 1), (x, y + 1), (x - 1, y), (x + 1, y)] = {q. adjacent (x, y) q}"
  by (auto simp: adjacent_def)

lemma fillable_subset: "fillable bin w h L \<subseteq> {p. in_bounds w h p}"
  by (auto simp: fillable_def)

lemma fillable_finite: "finite (fillable bin w h L)"
  using fillable_subset in_bounds_finite by (rule finite_subset)

lemma fillable_update:
  assumes "p \<in> fillable bin w h L" "label \<noteq> 0"
  shows "fillable bin w h (L[pix_idx w p := label]) = fillable bin w h L - {p}"
proof -
  have pb: "in_bounds w h p" and pl: "pix_idx w p < length L"
    using assms(1) by (auto simp: fillable_def rd_def split: if_splits)
  have "q \<in> fillable bin w h (L[pix_idx w p := label]) \<longleftrightarrow> q \<in> fillable bin w h L - {p}" for q
  proof (cases "in_bounds w h q")
    case False
    then show ?thesis by (simp add: fillable_def)
  next
    case True
    show ?thesis
    proof (cases "pix_idx w q = pix_idx w p")
      case True
      with \<open>in_bounds w h q\<close> pb have "q = p" by (auto dest: pix_idx_inj)
      then show ?thesis using assms pl by (simp add: fillable_def rd_def)
    next
      case False
      then have "q \<noteq> p" by auto
      then show ?thesis using False by (auto simp: fillable_def rd_def)
    qed
  qed
  then show ?thesis by blast
qed

lemma Min_insert_min:
  assumes "finite A"
  shows "Min (insert (min m x) A) = Min (insert m (insert x A))"
proof (cases "A = {}")
  case True
  then show ?thesis by (simp add: min.commute)
next
  case False
  then show ?thesis using assms by (simp add: min.assoc)
qed

lemma Max_insert_max:
  assumes "finite A"
  shows "Max (insert (max m x) A) = Max (insert m (insert x A))"
proof (cases "A = {}")
  case True
  then show ?thesis by (simp add: max.commute)
next
  case False
  then show ?thesis using assms by (simp add: max.assoc)
qed

lemma add_pixels_insert:
  assumes "finite N" "p \<notin> N"
  shows "add_pixels \<lparr> f_area = f_area st + 1, sumX = sumX st + fst p, sumY = sumY st + snd p,
                      minX = min (minX st) (fst p), minY = min (minY st) (snd p),
                      maxX = max (maxX st) (fst p), maxY = max (maxY st) (snd p) \<rparr> N =
         add_pixels st (insert p N)"
  using assms by (simp add: add_pixels_def Min_insert_min Max_insert_max)

lemma add_pixels_empty: "add_pixels st {} = st"
  by (simp add: add_pixels_def)

lemma reach_empty: "reach U {} = {}"
proof -
  have "x \<in> reach U {} \<Longrightarrow> False" for x
    by (induction rule: reach.induct) auto
  then show ?thesis by auto
qed

lemma floodFill_loop_correct:
  assumes l: "label \<noteq> 0"
  shows "\<exists>L'. floodFill_loop bin w h label stack L st =
                 Some (L', add_pixels st (reach (fillable bin w h L) (set stack))) \<and>
              length L' = length L \<and>
              (\<forall>i < length L. L' ! i =
                 (if i \<in> pix_idx w ` reach (fillable bin w h L) (set stack) then label
                  else L ! i))"
proof (induction "4 * card (fillable bin w h L) + length stack" arbitrary: stack L st
    rule: less_induct)
  case less
  show ?case
  proof (cases stack)
    case Nil
    then show ?thesis
      by (subst floodFill_loop.simps) (simp add: reach_empty add_pixels_empty)
  next
    case (Cons p rest)
    let ?U = "fillable bin w h L"
    show ?thesis
    proof (cases "p \<in> ?U")
      case False
      then have skip: "floodFill_loop bin w h label stack L st =
                       floodFill_loop bin w h label rest L st"
        by (subst floodFill_loop.simps)
           (auto simp: Cons fillable_def in_bounds_def pix_idx_def Let_def)
      have r: "reach ?U (set stack) = reach ?U (set rest)"
        using False by (simp add: Cons reach_insert_out)
      have "4 * card ?U + length rest < 4 * card ?U + length stack"
        by (simp add: Cons)
      from less[OF this] show ?thesis
        by (simp add: skip r)
    next
      case True
      let ?L2 = "L[pix_idx w p := label]"
      let ?st2 = "\<lparr> f_area = f_area st + 1, sumX = sumX st + fst p, sumY = sumY st + snd p,
                      minX = min (minX st) (fst p), minY = min (minY st) (snd p),
                      maxX = max (maxX st) (fst p), maxY = max (maxY st) (snd p) \<rparr>"
      let ?stack2 = "(fst p, snd p - 1) # (fst p, snd p + 1) # (fst p - 1, snd p) #
                     (fst p + 1, snd p) # rest"
      have mark: "floodFill_loop bin w h label stack L st =
                  floodFill_loop bin w h label ?stack2 ?L2 ?st2"
        using True
        by (subst floodFill_loop.simps)
           (auto simp: Cons fillable_def in_bounds_def pix_idx_def Let_def)
      have U2: "fillable bin w h ?L2 = ?U - {p}"
        using True l by (rule fillable_update)
      have s2: "set ?stack2 = {q. adjacent p q} \<union> set rest"
        using four_neighbours[of "fst p" "snd p"] by auto
      let ?N2 = "reach (?U - {p}) ({q. adjacent p q} \<union> set rest)"
      have N: "reach ?U (set stack) = insert p ?N2"
        using True by (simp add: Cons reach_insert_in)
      have fin: "finite ?N2"
        using reach_subset fillable_finite by (meson finite_Diff finite_subset)
      have notin: "p \<notin> ?N2"
        using reach_subset by fastforce
      have "card ?U \<ge> 1"
        using True fillable_finite by (metis One_nat_def Suc_leI card_gt_0_iff empty_iff)
      then have "4 * card (?U - {p}) + length ?stack2 < 4 * card ?U + length stack"
        using True fillable_finite by (simp add: Cons card_Diff_singleton)
      then have "4 * card (fillable bin w h ?L2) + length ?stack2 < 4 * card ?U + length stack"
        by (simp only: U2)
      from less[OF this, of ?st2] obtain L' where
        r: "floodFill_loop bin w h label ?stack2 ?L2 ?st2 =
              Some (L', add_pixels ?st2 (reach (fillable bin w h ?L2) (set ?stack2)))"
        and len: "length L' = length ?L2"
        and val: "\<forall>i < length ?L2. L' ! i =
                 (if i \<in> pix_idx w ` reach (fillable bin w h ?L2) (set ?stack2) then label
                  else ?L2 ! i)"
        by blast
      have st: "add_pixels ?st2 (reach (fillable bin w h ?L2) (set ?stack2)) =
                add_pixels st (reach ?U (set stack))"
        using add_pixels_insert[OF fin notin, of st] by (simp only: U2 s2 N)
      have v: "\<forall>i < length L. L' ! i =
                 (if i \<in> pix_idx w ` reach ?U (set stack) then label else L ! i)"
      proof (intro allI impI)
        fix i assume "i < length L"
        then have "L' ! i = (if i \<in> pix_idx w ` ?N2 then label else ?L2 ! i)"
          using val by (simp only: U2 s2) simp
        then show "L' ! i = (if i \<in> pix_idx w ` reach ?U (set stack) then label else L ! i)"
          using \<open>i < length L\<close> by (auto simp: N nth_list_update)
      qed
      have r': "floodFill_loop bin w h label stack L st =
              Some (L', add_pixels st (reach ?U (set stack)))"
        using r unfolding st mark .
      show ?thesis
        using r' len v by simp
    qed
  qed
qed

lemma for_each_append:
  "for_each (xs @ ys) f s = (case for_each xs f s of None \<Rightarrow> None | Some s' \<Rightarrow> for_each ys f s')"
  by (induction xs arbitrary: s) (auto split: option.splits)

lemma for_each_map: "for_each (map g xs) f s = for_each xs (\<lambda>s x. f s (g x)) s"
  by (induction xs arbitrary: s) (auto split: option.splits)

lemma for_each_concat:
  "for_each (concat xss) f s = for_each xss (\<lambda>s xs. for_each xs f s) s"
  by (induction xss arbitrary: s) (auto simp: for_each_append split: option.splits)

lemma adjacent_sym: "adjacent a b = adjacent b a"
  by (auto simp: adjacent_def)

lemma reach_mono: "U \<subseteq> V \<Longrightarrow> reach U S \<subseteq> reach V S"
proof
  fix x assume "U \<subseteq> V" "x \<in> reach U S"
  from this(2,1) show "x \<in> reach V S"
    by (induction rule: reach.induct) (auto intro: reach.intros)
qed

lemma reach_avoid:
  assumes c: "closed C F" and p: "p \<notin> C"
  shows "reach (F - C) {p} = reach F {p}"
proof (intro equalityI subsetI)
  fix x assume "x \<in> reach (F - C) {p}"
  then show "x \<in> reach F {p}"
    using reach_mono[of "F - C" F "{p}"] by auto
next
  fix x assume "x \<in> reach F {p}"
  then show "x \<in> reach (F - C) {p}"
  proof (induction rule: reach.induct)
    case (start s)
    then show ?case using p by (auto intro: reach.start)
  next
    case (step a b)
    have "a \<in> F - C" using step.IH reach_subset by blast
    have "b \<notin> C"
    proof
      assume "b \<in> C"
      with c \<open>a \<in> F - C\<close> step.hyps have "a \<in> C"
        unfolding closed_def using adjacent_sym by blast
      with \<open>a \<in> F - C\<close> show False by simp
    qed
    with step show ?case by (auto intro: reach.step)
  qed
qed

lemma closed_reach: "closed (reach F S) F"
  unfolding closed_def by (auto intro: reach.step)

lemma closed_Un: "closed A F \<Longrightarrow> closed B F \<Longrightarrow> closed (A \<union> B) F"
  unfolding closed_def by blast

lemma gated_blobs_snoc:
  "gated_blobs mn mx (cs @ [N]) =
     gated_blobs mn mx cs @
       (if mn \<le> int (card N) \<and> int (card N) \<le> mx
        then [region_blob (int (length cs) + 1) N] else [])"
  by (simp add: gated_blobs_def enumerate_append_eq)

lemma fillable_foreground:
  assumes "scan_inv bin w h mn mx s seen cs"
  shows "fillable bin (int w) (int h) (sc_labels s) = foreground bin w h - seen"
  using assms
  by (auto simp: scan_inv_def fillable_def foreground_def rd_def split: if_splits)

lemma stats_region:
  assumes "finite N" "(x, y) \<in> N"
  shows "stats_blob k (add_pixels \<lparr> f_area = 0, sumX = 0, sumY = 0, minX = x, minY = y,
                                     maxX = x, maxY = y \<rparr> N) = region_blob k N"
proof -
  have "insert x (fst ` N) = fst ` N" "insert y (snd ` N) = snd ` N"
    using assms(2) by force+
  then show ?thesis
    by (simp add: stats_blob_def add_pixels_def region_blob_def)
qed

lemma scan_pixel_step:
  assumes inv: "scan_inv bin w h mn mx s seen cs" and x: "x < w" and y: "y < h"
  shows "\<exists>s'. scan_pixel bin w h mn mx y s x = Some s' \<and>
     (if rd bin (pix_idx (int w) (int x, int y)) = Some 255 \<and> (int x, int y) \<notin> seen
      then scan_inv bin w h mn mx s' (seen \<union> component bin w h (int x, int y))
             (cs @ [component bin w h (int x, int y)])
      else scan_inv bin w h mn mx s' seen cs)"
proof -
  let ?p = "(int x, int y)"
  let ?F = "foreground bin w h"
  let ?L = "sc_labels s"
  have idx: "pix_idx (int w) ?p = y * w + x"
    by (simp add: pix_idx_def nat_add_distrib nat_mult_distrib)
  have pb: "in_bounds (int w) (int h) ?p"
    using x y by (simp add: in_bounds_def)
  have lab: "rd ?L (y * w + x) = Some 0 \<longleftrightarrow> y * w + x < length bin \<and> ?p \<notin> seen"
    using inv pb idx unfolding scan_inv_def by metis
  show ?thesis
  proof (cases "rd bin (y * w + x) = Some 255 \<and> ?p \<notin> seen")
    case False
    then have "\<not> (rd bin (y * w + x) = Some 255 \<and> rd ?L (y * w + x) = Some 0)"
      using lab by auto
    then have "scan_pixel bin w h mn mx y s x = Some s"
      by (auto simp: scan_pixel_def Let_def)
    then show ?thesis
      using False inv by (auto simp: idx)
  next
    case True
    then have inlen: "y * w + x < length bin" and v: "bin ! (y * w + x) = 255"
      by (auto simp: rd_def split: if_splits)
    have go: "rd bin (y * w + x) = Some 255 \<and> rd ?L (y * w + x) = Some 0"
      using True lab inlen by simp
    have pF: "?p \<in> ?F"
      using pb inlen v by (simp add: foreground_def idx rd_def)
    let ?label = "currentLabel s + 1"
    have l0: "?label \<noteq> 0"
      using inv by (simp add: scan_inv_def)
    let ?N = "component bin w h ?p"
    have U: "fillable bin (int w) (int h) ?L = ?F - seen"
      using inv by (rule fillable_foreground)
    have cl: "closed seen ?F" using inv by (simp add: scan_inv_def)
    have N: "reach (fillable bin (int w) (int h) ?L) (set [?p]) = ?N"
      using reach_avoid[OF cl, of ?p] True by (simp add: U component_def)
    let ?init = "\<lparr> f_area = 0, sumX = 0, sumY = 0, minX = int x, minY = int y,
                    maxX = int x, maxY = int y \<rparr>"
    from floodFill_loop_correct[OF l0, of bin "int w" "int h" "[?p]" ?L ?init]
    obtain L' where
      r: "floodFill bin (int w) (int h) ?L (int x) (int y) ?label = Some (L', add_pixels ?init ?N)"
      and len: "length L' = length ?L"
      and val: "\<forall>i < length ?L. L' ! i = (if i \<in> pix_idx (int w) ` ?N then ?label else ?L ! i)"
      unfolding N floodFill_def by blast
    have Nsub: "?N \<subseteq> ?F"
      unfolding component_def by (rule reach_subset)
    have Nfin: "finite ?N"
    proof -
      have "?F \<subseteq> {p. in_bounds (int w) (int h) p}" by (auto simp: foreground_def)
      then show ?thesis using Nsub in_bounds_finite by (meson finite_subset)
    qed
    have pN: "?p \<in> ?N"
      using pF by (auto simp: component_def intro: reach.start)
    have area: "f_area (add_pixels ?init ?N) = int (card ?N)"
      by (simp add: add_pixels_def)
    let ?s' = "\<lparr> sc_labels = L', currentLabel = ?label,
                  sc_blobs = (if mn \<le> int (card ?N) \<and> int (card ?N) \<le> mx
                              then sc_blobs s @ [region_blob ?label ?N] else sc_blobs s) \<rparr>"
    have sp: "scan_pixel bin w h mn mx y s x = Some ?s'"
      using go r area stats_region[OF Nfin pN, of ?label]
      by (simp add: scan_pixel_def Let_def)
    have lenL: "length ?L = length bin" using inv by (simp add: scan_inv_def)
    have labs: "\<forall>q. in_bounds (int w) (int h) q \<longrightarrow>
           (rd L' (pix_idx (int w) q) = Some 0 \<longleftrightarrow>
            pix_idx (int w) q < length bin \<and> q \<notin> seen \<union> ?N)"
    proof (intro allI impI)
      fix q assume qb: "in_bounds (int w) (int h) q"
      have old: "rd ?L (pix_idx (int w) q) = Some 0 \<longleftrightarrow>
                 pix_idx (int w) q < length bin \<and> q \<notin> seen"
        using inv qb unfolding scan_inv_def by blast
      have inN: "pix_idx (int w) q \<in> pix_idx (int w) ` ?N \<longleftrightarrow> q \<in> ?N"
      proof
        assume "pix_idx (int w) q \<in> pix_idx (int w) ` ?N"
        then obtain q' where q': "q' \<in> ?N" "pix_idx (int w) q = pix_idx (int w) q'" by auto
        then have "in_bounds (int w) (int h) q'"
          using Nsub by (auto simp: foreground_def)
        with qb q'(2) have "q = q'" using pix_idx_inj by blast
        with q'(1) show "q \<in> ?N" by simp
      qed auto
      show "rd L' (pix_idx (int w) q) = Some 0 \<longleftrightarrow>
            pix_idx (int w) q < length bin \<and> q \<notin> seen \<union> ?N"
      proof (cases "pix_idx (int w) q < length bin")
        case False
        then show ?thesis using len lenL by (simp add: rd_def)
      next
        case True
        then have "L' ! pix_idx (int w) q =
            (if q \<in> ?N then ?label else ?L ! pix_idx (int w) q)"
          using val lenL inN by simp
        then show ?thesis
          using True old l0 len lenL by (auto simp: rd_def)
      qed
    qed
    have "scan_inv bin w h mn mx ?s' (seen \<union> ?N) (cs @ [?N])"
      unfolding scan_inv_def
    proof (intro conjI)
      show "length (sc_labels ?s') = length bin" using len lenL by simp
      show "currentLabel ?s' = int (length (cs @ [?N]))"
        using inv by (simp add: scan_inv_def)
      show "sc_blobs ?s' = gated_blobs mn mx (cs @ [?N])"
        using inv by (simp add: scan_inv_def gated_blobs_snoc)
      show "seen \<union> ?N \<subseteq> ?F" using inv Nsub by (simp add: scan_inv_def)
      show "closed (seen \<union> ?N) ?F"
        using cl closed_reach[of ?F "{?p}"] by (simp add: closed_Un component_def)
      show "\<forall>q. in_bounds (int w) (int h) q \<longrightarrow>
           (rd (sc_labels ?s') (pix_idx (int w) q) = Some 0 \<longleftrightarrow>
            pix_idx (int w) q < length bin \<and> q \<notin> seen \<union> ?N)"
        using labs by simp
    qed
    then show ?thesis
      using True sp by (simp add: idx)
  qed
qed

lemma scan_list:
  assumes "scan_inv bin w h mn mx s seen cs"
    and "\<forall>(x, y) \<in> set ps. x < w \<and> y < h"
  shows "\<exists>s' seen'. for_each ps (\<lambda>s (x, y). scan_pixel bin w h mn mx y s x) s = Some s' \<and>
           scan_inv bin w h mn mx s' seen'
             (cs @ encounter bin w h (map (\<lambda>(x, y). (int x, int y)) ps) seen)"
  using assms
proof (induction ps arbitrary: s seen cs)
  case Nil
  then show ?case by auto
next
  case (Cons p ps)
  obtain x y where p: "p = (x, y)" by (cases p)
  have xy: "x < w" "y < h" using Cons.prems(2) by (auto simp: p)
  from scan_pixel_step[OF Cons.prems(1) xy] obtain s1 where
    s1: "scan_pixel bin w h mn mx y s x = Some s1"
    and i1: "if rd bin (pix_idx (int w) (int x, int y)) = Some 255 \<and> (int x, int y) \<notin> seen
      then scan_inv bin w h mn mx s1 (seen \<union> component bin w h (int x, int y))
             (cs @ [component bin w h (int x, int y)])
      else scan_inv bin w h mn mx s1 seen cs"
    by blast
  have rest: "\<forall>(x, y) \<in> set ps. x < w \<and> y < h" using Cons.prems(2) by simp
  show ?case
  proof (cases "rd bin (pix_idx (int w) (int x, int y)) = Some 255 \<and> (int x, int y) \<notin> seen")
    case True
    with i1 have "scan_inv bin w h mn mx s1 (seen \<union> component bin w h (int x, int y))
             (cs @ [component bin w h (int x, int y)])" by simp
    from Cons.IH[OF this rest] show ?thesis
      using True s1 by (simp add: p)
  next
    case False
    with i1 have "scan_inv bin w h mn mx s1 seen cs" by simp
    from Cons.IH[OF this rest] show ?thesis
      using False s1 by (auto simp: p)
  qed
qed

lemma nested_scan:
  "for_each [0..<h] (scan_row bin w h mn mx) s =
   for_each (concat (map (\<lambda>y. map (\<lambda>x. (x, y)) [0..<w]) [0..<h]))
     (\<lambda>s (x, y). scan_pixel bin w h mn mx y s x) s"
proof -
  have "scan_row bin w h mn mx = (\<lambda>s y. for_each [0..<w] (scan_pixel bin w h mn mx y) s)"
    by (intro ext) (simp add: scan_row_def)
  then show ?thesis
    by (simp add: for_each_concat for_each_map)
qed

lemma row_major_map:
  "row_major w h = map (\<lambda>(x, y). (int x, int y))
     (concat (map (\<lambda>y. map (\<lambda>x. (x, y)) [0..<w]) [0..<h]))"
  by (simp add: row_major_def map_concat comp_def)

lemma findBlobs_gated: "findBlobs bin w h mn mx = Some (gated_blobs mn mx (components bin w h))"
proof -
  let ?s0 = "\<lparr> sc_labels = replicate (length bin) 0, currentLabel = 0, sc_blobs = [] \<rparr>"
  let ?ps = "concat (map (\<lambda>y. map (\<lambda>x. (x, y)) [0..<w]) [0..<h])"
  have i0: "scan_inv bin w h mn mx ?s0 {} []"
    by (auto simp: scan_inv_def gated_blobs_def closed_def rd_def)
  have b: "\<forall>(x, y) \<in> set ?ps. x < w \<and> y < h" by auto
  from scan_list[OF i0 b] obtain s' seen' where
    r: "for_each ?ps (\<lambda>s (x, y). scan_pixel bin w h mn mx y s x) ?s0 = Some s'"
    and i: "scan_inv bin w h mn mx s' seen' ([] @ encounter bin w h
              (map (\<lambda>(x, y). (int x, int y)) ?ps) {})"
    by blast
  have "sc_blobs s' = gated_blobs mn mx (components bin w h)"
    using i by (simp add: scan_inv_def components_def row_major_map)
  then show ?thesis
    using r by (simp add: findBlobs_def nested_scan)
qed

lemma reach_trans:
  assumes "q \<in> reach F {p}" "x \<in> reach F {q}"
  shows "x \<in> reach F {p}"
  using assms(2,1) by (induction rule: reach.induct) (auto intro: reach.step)

lemma reach_sym:
  assumes "q \<in> reach F {p}"
  shows "p \<in> reach F {q}"
  using assms
proof (induction rule: reach.induct)
  case (start s)
  then show ?case by (auto intro: reach.start)
next
  case (step a b)
  have aF: "a \<in> F" using step.hyps(1) reach_subset by blast
  have "b \<in> reach F {b}" using step.hyps(3) by (auto intro: reach.start)
  then have "a \<in> reach F {b}"
    using step.hyps(2) aF adjacent_sym by (blast intro: reach.step)
  then show ?case using step.IH by (rule reach_trans)
qed

lemma component_eq:
  assumes "q \<in> component bin w h p"
  shows "component bin w h q = component bin w h p"
  using assms reach_sym reach_trans unfolding component_def by blast

lemma encounter_step:
  assumes "closed seen (foreground bin w h)" "in_bounds (int w) (int h) p"
    and "rd bin (pix_idx (int w) p) = Some 255" "p \<notin> seen"
  shows "closed (seen \<union> component bin w h p) (foreground bin w h)"
    and "component bin w h p \<inter> seen = {}"
    and "p \<in> component bin w h p"
proof -
  let ?F = "foreground bin w h"
  show "closed (seen \<union> component bin w h p) ?F"
    using assms(1) closed_reach[of ?F "{p}"] by (simp add: closed_Un component_def)
  have "component bin w h p = reach (?F - seen) {p}"
    using reach_avoid[OF assms(1,4)] by (simp add: component_def)
  then show "component bin w h p \<inter> seen = {}"
    using reach_subset[of "?F - seen" "{p}"] by auto
  have "p \<in> ?F"
    using assms(2,3) by (simp add: foreground_def)
  then show "p \<in> component bin w h p"
    unfolding component_def by (intro reach.start) simp_all
qed

lemma encounter_sound:
  assumes "closed seen (foreground bin w h)"
    and "\<forall>p \<in> set ps. in_bounds (int w) (int h) p"
    and "C \<in> set (encounter bin w h ps seen)"
  shows "C \<inter> seen = {} \<and>
         (\<exists>p \<in> set ps. rd bin (pix_idx (int w) p) = Some 255 \<and> p \<in> C \<and>
                        C = component bin w h p)"
  using assms
proof (induction ps arbitrary: seen)
  case Nil
  then show ?case by simp
next
  case (Cons p ps)
  have pb: "in_bounds (int w) (int h) p" and psb: "\<forall>p \<in> set ps. in_bounds (int w) (int h) p"
    using Cons.prems(2) by simp_all
  show ?case
  proof (cases "rd bin (pix_idx (int w) p) = Some 255 \<and> p \<notin> seen")
    case False
    then have "C \<in> set (encounter bin w h ps seen)"
      using Cons.prems(3) by auto
    from Cons.IH[OF Cons.prems(1) psb this] show ?thesis
      by (metis list.set_intros(2))
  next
    case True
    let ?N = "component bin w h p"
    note st = encounter_step[OF Cons.prems(1) pb conjunct1[OF True] conjunct2[OF True]]
    from True Cons.prems(3) consider "C = ?N" | "C \<in> set (encounter bin w h ps (seen \<union> ?N))"
      by auto
    then show ?thesis
    proof cases
      case 1
      have "p \<in> set (p # ps)" by simp
      then show ?thesis
        using 1 st(2,3) True by blast
    next
      case 2
      from Cons.IH[OF st(1) psb 2] obtain q where
        "C \<inter> (seen \<union> ?N) = {}" "q \<in> set ps" "rd bin (pix_idx (int w) q) = Some 255"
        "q \<in> C" "C = component bin w h q"
        by blast
      moreover have "q \<in> set (p # ps)" using \<open>q \<in> set ps\<close> by simp
      ultimately show ?thesis by blast
    qed
  qed
qed

lemma encounter_cover:
  assumes "closed seen (foreground bin w h)"
    and "\<forall>p \<in> set ps. in_bounds (int w) (int h) p"
    and "q \<in> set ps" "rd bin (pix_idx (int w) q) = Some 255"
  shows "q \<in> seen \<union> \<Union> (set (encounter bin w h ps seen))"
  using assms
proof (induction ps arbitrary: seen)
  case Nil
  then show ?case by simp
next
  case (Cons p ps)
  have pb: "in_bounds (int w) (int h) p" and psb: "\<forall>p \<in> set ps. in_bounds (int w) (int h) p"
    using Cons.prems(2) by simp_all
  show ?case
  proof (cases "rd bin (pix_idx (int w) p) = Some 255 \<and> p \<notin> seen")
    case False
    then have e: "encounter bin w h (p # ps) seen = encounter bin w h ps seen" by auto
    show ?thesis
    proof (cases "q = p")
      case True
      then show ?thesis using False Cons.prems(4) by simp
    next
      case False
      then have "q \<in> set ps" using Cons.prems(3) by simp
      from Cons.IH[OF Cons.prems(1) psb this Cons.prems(4)] show ?thesis
        unfolding e .
    qed
  next
    case True
    let ?N = "component bin w h p"
    note st = encounter_step[OF Cons.prems(1) pb conjunct1[OF True] conjunct2[OF True]]
    have e: "encounter bin w h (p # ps) seen = ?N # encounter bin w h ps (seen \<union> ?N)"
      using True by simp
    show ?thesis
    proof (cases "q = p")
      case True
      then show ?thesis unfolding e using st(3) by simp
    next
      case False
      then have "q \<in> set ps" using Cons.prems(3) by simp
      from Cons.IH[OF st(1) psb this Cons.prems(4)] show ?thesis
        unfolding e by auto
    qed
  qed
qed

lemma encounter_disjoint:
  assumes "closed seen (foreground bin w h)"
    and "\<forall>p \<in> set ps. in_bounds (int w) (int h) p"
    and "i < j" "j < length (encounter bin w h ps seen)"
  shows "encounter bin w h ps seen ! i \<inter> encounter bin w h ps seen ! j = {}"
  using assms
proof (induction ps arbitrary: seen i j)
  case Nil
  then show ?case by simp
next
  case (Cons p ps)
  have pb: "in_bounds (int w) (int h) p" and psb: "\<forall>p \<in> set ps. in_bounds (int w) (int h) p"
    using Cons.prems(2) by simp_all
  show ?case
  proof (cases "rd bin (pix_idx (int w) p) = Some 255 \<and> p \<notin> seen")
    case False
    then have e: "encounter bin w h (p # ps) seen = encounter bin w h ps seen" by auto
    from Cons.IH[OF Cons.prems(1) psb Cons.prems(3)] Cons.prems(4) show ?thesis
      unfolding e by simp
  next
    case True
    let ?N = "component bin w h p"
    let ?rest = "encounter bin w h ps (seen \<union> ?N)"
    note st = encounter_step[OF Cons.prems(1) pb conjunct1[OF True] conjunct2[OF True]]
    have e: "encounter bin w h (p # ps) seen = ?N # ?rest"
      using True by simp
    from Cons.prems(3,4) obtain j' where j': "j = Suc j'" "j' < length ?rest"
      unfolding e by (cases j) auto
    show ?thesis
    proof (cases i)
      case 0
      have "?rest ! j' \<in> set ?rest" using j' by simp
      from encounter_sound[OF st(1) psb this] have "?rest ! j' \<inter> (seen \<union> ?N) = {}"
        by simp
      then show ?thesis unfolding e using 0 j' by auto
    next
      case (Suc i')
      then have "i' < j'" using Cons.prems(3) j' by simp
      from Cons.IH[OF st(1) psb this j'(2)] show ?thesis
        unfolding e using Suc j' by simp
    qed
  qed
qed

lemma row_major_iff:
  "p \<in> set (row_major w h) \<longleftrightarrow> (\<exists>x y. x < w \<and> y < h \<and> p = (int x, int y))"
  by (force simp: row_major_def)

lemma row_major_set: "set (row_major w h) = {p. in_bounds (int w) (int h) p}"
proof (intro equalityI subsetI)
  fix p assume "p \<in> set (row_major w h)"
  then show "p \<in> {p. in_bounds (int w) (int h) p}"
    by (auto simp: row_major_iff in_bounds_def)
next
  fix p assume "p \<in> {p. in_bounds (int w) (int h) p}"
  then have b: "0 \<le> fst p" "fst p < int w" "0 \<le> snd p" "snd p < int h"
    by (simp_all add: in_bounds_def)
  have "nat (fst p) < w \<and> nat (snd p) < h \<and> p = (int (nat (fst p)), int (nat (snd p)))"
    using b by (simp add: prod_eq_iff nat_less_iff)
  then show "p \<in> set (row_major w h)"
    unfolding row_major_iff by blast
qed

text \<open>
  Claim C6. For every binary image (every byte 0 or 255), whatever the dimensions and the
  bounds: \<open>findBlobs\<close> returns, and its result lists the 4-connected components of the
  foreground in the order in which a row-major scan first meets them. The component at
  position \<open>k\<close> has id \<open>k + 1\<close> whether it is listed or not; it is listed iff its number of
  pixels lies within \<open>minArea\<close> and \<open>maxArea\<close>; its area is that number, its centroid the
  rounded mean of the coordinates of its pixels, and its bounding box runs from the least
  to the greatest coordinate, with width \<open>maxX - minX + 1\<close> and height \<open>maxY - minY + 1\<close>
  (\<open>gated_blobs\<close>, \<open>region_blob\<close>). The components partition the foreground: they cover
  it, each is the whole component of each of its pixels, none is empty and no two share a
  pixel.
\<close>

theorem findBlobs_components:
  assumes bin: "set bin \<subseteq> {0, 255}"
  shows "findBlobs bin w h minArea maxArea =
           Some (gated_blobs minArea maxArea (components bin w h)) \<and>
         \<Union> (set (components bin w h)) = foreground bin w h \<and>
         (\<forall>C \<in> set (components bin w h). \<forall>p \<in> C. C = component bin w h p) \<and>
         (\<forall>C \<in> set (components bin w h). C \<noteq> {}) \<and>
         (\<forall>i j. i < j \<and> j < length (components bin w h) \<longrightarrow>
            components bin w h ! i \<inter> components bin w h ! j = {})"
proof -
  let ?cs = "components bin w h"
  let ?F = "foreground bin w h"
  have cl: "closed {} ?F" by (simp add: closed_def)
  have inb: "\<forall>p \<in> set (row_major w h). in_bounds (int w) (int h) p"
    by (simp add: row_major_set)
  have comp: "\<forall>C \<in> set ?cs. \<exists>p. p \<in> C \<and> C = component bin w h p"
  proof
    fix C assume "C \<in> set ?cs"
    then have "C \<in> set (encounter bin w h (row_major w h) {})" by (simp add: components_def)
    from encounter_sound[OF cl inb this] show "\<exists>p. p \<in> C \<and> C = component bin w h p"
      by blast
  qed
  have sub: "\<Union> (set ?cs) \<subseteq> ?F"
  proof
    fix q assume "q \<in> \<Union> (set ?cs)"
    then obtain C where "C \<in> set ?cs" "q \<in> C" by auto
    with comp obtain p where "C = component bin w h p" by blast
    with \<open>q \<in> C\<close> show "q \<in> ?F" using reach_subset by (auto simp: component_def)
  qed
  have sup: "?F \<subseteq> \<Union> (set ?cs)"
  proof
    fix q assume q: "q \<in> ?F"
    then obtain v where v: "rd bin (pix_idx (int w) q) = Some v" "v \<noteq> 0"
      and qb: "in_bounds (int w) (int h) q"
      by (auto simp: foreground_def)
    from v(1) have "v \<in> set bin" by (auto simp: rd_def split: if_splits)
    with bin v(2) have "v = 255" by auto
    have "q \<in> set (row_major w h)" using qb by (simp add: row_major_set)
    from encounter_cover[OF cl inb this] v(1) \<open>v = 255\<close> show "q \<in> \<Union> (set ?cs)"
      by (simp add: components_def)
  qed
  have each: "\<forall>C \<in> set ?cs. \<forall>p \<in> C. C = component bin w h p"
  proof (intro ballI)
    fix C p assume "C \<in> set ?cs" "p \<in> C"
    with comp obtain p0 where "C = component bin w h p0" by blast
    with \<open>p \<in> C\<close> show "C = component bin w h p" using component_eq by blast
  qed
  have ne: "\<forall>C \<in> set ?cs. C \<noteq> {}" using comp by blast
  have dis: "\<forall>i j. i < j \<and> j < length ?cs \<longrightarrow> ?cs ! i \<inter> ?cs ! j = {}"
    using encounter_disjoint[OF cl inb] by (simp add: components_def)
  have un: "\<Union> (set ?cs) = ?F" using sub sup by (rule equalityI)
  from findBlobs_gated[of bin w h minArea maxArea] un each ne dis show ?thesis
    by (intro conjI)
qed

theorem findBlobs_components_witness:
  "set three_blobs \<subseteq> {0, 255} \<and>
   findBlobs three_blobs 4 3 2 100 =
     Some (gated_blobs 2 100 (components three_blobs 4 3)) \<and>
   findBlobs three_blobs 4 3 2 100 =
     Some [\<lparr> blob_id = 1, area = 2, centroid = (1, 0), boundingBox = (0, 0, 2, 1) \<rparr>,
           \<lparr> blob_id = 2, area = 4, centroid = (3, 1), boundingBox = (2, 0, 2, 3) \<rparr>]"
proof -
  have b: "set three_blobs \<subseteq> {0, 255}" by (simp add: three_blobs_def)
  have e: "findBlobs three_blobs 4 3 2 100 =
     Some [\<lparr> blob_id = 1, area = 2, centroid = (1, 0), boundingBox = (0, 0, 2, 1) \<rparr>,
           \<lparr> blob_id = 2, area = 4, centroid = (3, 1), boundingBox = (2, 0, 2, 3) \<rparr>]"
    by code_simp
  from findBlobs_components[OF b, of 4 3 2 100] b e show ?thesis
    by blast
qed

section \<open>The fallback of the external detector\<close>

lemma findBlobs_returns: "\<exists>bs. findBlobs bin w h mn mx = Some bs"
  using findBlobs_gated by blast

lemma analyzeFrame_no_background:
  "\<exists>r. analyzeFrame (Encoded g) None polygon opts = Inr r \<and> count r = int (length (blobs r))"
proof -
  obtain bs where "findBlobs
      (applyMask (morphologyClean (mean_threshold (data g) (dflt (opt_threshold opts) 30))
         (width g) (height g) (Some (dflt (opt_morphIterations opts) 2)))
         (createPolygonMask polygon (width g) (height g)))
      (width g) (height g) (dflt (opt_minBlobArea opts) 500) (dflt (opt_maxBlobArea opts) 50000)
      = Some bs"
    using findBlobs_returns by blast
  then show ?thesis
    by (simp add: analyzeFrame_def toGrayscale_def frame_difference_def Let_def)
qed

lemma hailo_try_failed:
  "failed_reply reply \<longleftrightarrow> hailo_try reply polygon mt options elapsed = Inl Hailo_error"
  by (auto simp: failed_reply_def hailo_try_def Let_def
      split: hailo_reply.splits http_body.splits)

lemma detectBlob_error: "detectBlob frame bg polygon options elapsed \<noteq> Inl Hailo_error"
  by (auto simp: detectBlob_def analyzeFrame_def toGrayscale_def frame_difference_def Let_def
      split: sum.splits image.splits option.splits if_splits)

lemma detectInFrame_failed:
  assumes m: "m \<noteq> Blob"
    and f: "failed_reply (hailo frame (model_name (mode_model m)))"
  shows "detectInFrame m hailo frame bg polygon options elapsed =
           detectBlob frame None polygon fallback_options elapsed"
proof -
  let ?mt = "mode_model m"
  have t: "hailo_try (hailo frame (model_name ?mt)) polygon ?mt options elapsed = Inl Hailo_error"
    using f hailo_try_failed by blast
  show ?thesis
    using m t
    by (cases m) (auto simp: detectInFrame_def detectHailo_def mode_model_def fallback_options_def)
qed

text \<open>
  Claim C5. In either external mode, when the call of the external detector fails (no
  response, a status that is not OK such as 503, a body that is not JSON, or a payload that
  carries an error), \<open>detectInFrame\<close> returns what the blob detection returns on the same
  frame with no background, whatever background and options the caller passed. The
  failure of the detector is never the outcome. When the frame decodes, the outcome is a
  result in mode blob whose count is the number of its detections, each of class
  \<open>object\<close> with confidence 1.
\<close>

theorem hailo_failure_falls_back:
  assumes m: "m = Hailo_yolo \<or> m = Hailo_ssd"
    and f: "failed_reply (hailo frame (model_name (mode_model m)))"
  shows "detectInFrame m hailo frame bg polygon options elapsed =
           detectBlob frame None polygon fallback_options elapsed \<and>
         detectInFrame m hailo frame bg polygon options elapsed \<noteq> Inl Hailo_error \<and>
         (\<forall>g. frame = Encoded g \<longrightarrow>
            (\<exists>r. detectInFrame m hailo frame bg polygon options elapsed = Inr r \<and>
                 d_mode r = Blob \<and> d_count r = int (length (detections r)) \<and>
                 (\<forall>d \<in> set (detections r). d_class d = ''object'' \<and> confidence d = 1)))"
proof -
  have nb: "m \<noteq> Blob" using m by auto
  have d: "detectInFrame m hailo frame bg polygon options elapsed =
           detectBlob frame None polygon fallback_options elapsed"
    using nb f by (rule detectInFrame_failed)
  have e: "detectInFrame m hailo frame bg polygon options elapsed \<noteq> Inl Hailo_error"
    unfolding d by (rule detectBlob_error)
  have r: "\<exists>r. detectBlob (Encoded g) None polygon fallback_options elapsed = Inr r \<and>
                 d_mode r = Blob \<and> d_count r = int (length (detections r)) \<and>
                 (\<forall>d \<in> set (detections r). d_class d = ''object'' \<and> confidence d = 1)" for g
  proof -
    obtain a where "analyzeFrame (Encoded g) None polygon
             \<lparr> opt_threshold = None,
               opt_minBlobArea = Some (num_or (minBlobArea fallback_options) 500),
               opt_maxBlobArea = Some (num_or (maxBlobArea fallback_options) 50000),
               opt_morphIterations = None \<rparr> = Inr a" and "count a = int (length (blobs a))"
      using analyzeFrame_no_background by blast
    then show ?thesis
      by (auto simp: detectBlob_def)
  qed
  show ?thesis
    using d e r by auto
qed

theorem hailo_failure_falls_back_witness:
  "(Hailo_yolo = Hailo_yolo \<or> Hailo_yolo = Hailo_ssd) \<and>
   failed_reply (hailo_ops down_world tiny_frame (model_name (mode_model Hailo_yolo))) \<and>
   (\<exists>r. detectInFrame Hailo_yolo (hailo_ops down_world) tiny_frame None square strict_options 20
           = Inr r \<and> d_mode r = Blob \<and> d_count r = int (length (detections r)))"
proof -
  have m: "Hailo_yolo = Hailo_yolo \<or> Hailo_yolo = Hailo_ssd" by simp
  have f: "failed_reply (hailo_ops down_world tiny_frame (model_name (mode_model Hailo_yolo)))"
    by (simp add: failed_reply_def down_world_def response_ok_def)
  have e: "tiny_frame = Encoded \<lparr> data = [0, 0, 0, 0], width = 2, height = 2 \<rparr>"
    by (simp add: tiny_frame_def)
  from hailo_failure_falls_back[of Hailo_yolo "hailo_ops down_world" tiny_frame None square
      strict_options 20, OF m f] e
  have "\<exists>r. detectInFrame Hailo_yolo (hailo_ops down_world) tiny_frame None square strict_options 20
           = Inr r \<and> d_mode r = Blob \<and> d_count r = int (length (detections r))"
    by blast
  with m f show ?thesis
    by blast
qed

text \<open>
  Claim C9. When the external detector fails, the outcome of \<open>detectInFrame\<close> is the blob
  analysis of the frame with no background, minimum area 500 and maximum area 50000. It
  is the same for any two backgrounds and any two option records, and the handlers'
  analysis of a zone is the same for any two zones with the same polygon, whatever their
  area bounds.
\<close>

theorem fallback_discards_options:
  assumes m: "m \<noteq> Blob"
    and f: "failed_reply (hailo frame (model_name (mode_model m)))"
  shows "detectInFrame m hailo frame bg polygon options elapsed =
           (case analyzeFrame frame None polygon
                   \<lparr> opt_threshold = None, opt_minBlobArea = Some 500,
                     opt_maxBlobArea = Some 50000, opt_morphIterations = None \<rparr> of
              Inl e \<Rightarrow> Inl e
            | Inr a \<Rightarrow>
                Inr \<lparr> detections =
                        map (\<lambda>b. \<lparr> d_class = ''object'', confidence = 1, bbox = boundingBox b \<rparr>)
                          (blobs a),
                      d_count = count a, inferenceTimeMs = elapsed, d_mode = Blob \<rparr>) \<and>
         detectInFrame m hailo frame bg polygon options elapsed =
           detectInFrame m hailo frame bg' polygon options' elapsed \<and>
         (\<forall>wd a z z'. currentMode a = m \<and> hailo_ops wd = hailo \<and>
             z_polygon z = polygon \<and> z_polygon z' = polygon \<longrightarrow>
             handler_analysis wd a frame bg z = handler_analysis wd a frame bg' z')"
proof -
  have d: "detectInFrame m hailo frame b polygon opts el =
           detectBlob frame None polygon fallback_options el" for b opts el
    using m f by (rule detectInFrame_failed)
  have 1: "detectInFrame m hailo frame bg polygon options elapsed =
           (case analyzeFrame frame None polygon
                   \<lparr> opt_threshold = None, opt_minBlobArea = Some 500,
                     opt_maxBlobArea = Some 50000, opt_morphIterations = None \<rparr> of
              Inl e \<Rightarrow> Inl e
            | Inr a \<Rightarrow>
                Inr \<lparr> detections =
                        map (\<lambda>b. \<lparr> d_class = ''object'', confidence = 1, bbox = boundingBox b \<rparr>)
                          (blobs a),
                      d_count = count a, inferenceTimeMs = elapsed, d_mode = Blob \<rparr>)"
    by (simp add: d detectBlob_def fallback_options_def num_or_def)
  have 2: "detectInFrame m hailo frame bg polygon options elapsed =
           detectInFrame m hailo frame bg' polygon options' elapsed"
    by (simp add: d)
  have 3: "\<forall>wd a z z'. currentMode a = m \<and> hailo_ops wd = hailo \<and>
             z_polygon z = polygon \<and> z_polygon z' = polygon \<longrightarrow>
             handler_analysis wd a frame bg z = handler_analysis wd a frame bg' z'"
    using m by (auto simp: handler_analysis_def d)
  from 1 2 3 show ?thesis by (intro conjI)
qed

theorem fallback_discards_options_witness:
  "Hailo_ssd \<noteq> Blob \<and>
   failed_reply (hailo_ops down_world tiny_frame (model_name (mode_model Hailo_ssd))) \<and>
   detectInFrame Hailo_ssd (hailo_ops down_world) tiny_frame None square strict_options 20 =
     detectInFrame Hailo_ssd (hailo_ops down_world) tiny_frame (Some tiny_frame) square
       fallback_options 20"
proof -
  have m: "Hailo_ssd \<noteq> Blob" by simp
  have f: "failed_reply (hailo_ops down_world tiny_frame (model_name (mode_model Hailo_ssd)))"
    by (simp add: failed_reply_def down_world_def response_ok_def)
  from fallback_discards_options[of Hailo_ssd "hailo_ops down_world" tiny_frame None square
      strict_options 20 "Some tiny_frame" fallback_options, OF m f]
  have "detectInFrame Hailo_ssd (hailo_ops down_world) tiny_frame None square strict_options 20 =
     detectInFrame Hailo_ssd (hailo_ops down_world) tiny_frame (Some tiny_frame) square
       fallback_options 20"
    by blast
  with m f show ?thesis
    by blast
qed

section \<open>Morphological cleaning\<close>

lemma inner_fold_length:
  "length (foldl (\<lambda>b x. b[g x := f x]) buf xs) = length buf"
  by (induction xs arbitrary: buf) auto

lemma outer_fold_length:
  "length (foldl (\<lambda>b y. foldl (\<lambda>b x. b[g x y := f x y]) b xs) buf ys) = length buf"
  by (induction ys arbitrary: buf) (auto simp: inner_fold_length)

lemma inner_fold_nth:
  assumes "i < length buf"
  shows "foldl (\<lambda>b x. b[y * w + x := f x]) buf xs ! i =
           (if y * w \<le> i \<and> i - y * w \<in> set xs then f (i - y * w) else buf ! i)"
  using assms
proof (induction xs arbitrary: buf rule: rev_induct)
  case Nil
  then show ?case by simp
next
  case (snoc x xs)
  have len: "i < length (foldl (\<lambda>b x. b[y * w + x := f x]) buf xs)"
    using snoc.prems by (simp add: inner_fold_length)
  show ?case
  proof (cases "y * w + x = i")
    case True
    then show ?thesis using len by auto
  next
    case False
    then have "\<not> (y * w \<le> i \<and> i - y * w = x)" by auto
    then show ?thesis using False snoc.IH[OF snoc.prems] len by auto
  qed
qed

lemma row_col:
  assumes "(x::nat) < w"
  shows "(y * w + x) div w = y" "(y * w + x) mod w = x"
  using assms by simp_all

lemma outer_fold_nth:
  assumes "i < length buf" "\<forall>x \<in> set xs. x < w"
  shows "foldl (\<lambda>b y. foldl (\<lambda>b x. b[y * w + x := f x y]) b xs) buf ys ! i =
           (if i mod w \<in> set xs \<and> i div w \<in> set ys then f (i mod w) (i div w) else buf ! i)"
  using assms(1)
proof (induction ys arbitrary: buf rule: rev_induct)
  case Nil
  then show ?case by simp
next
  case (snoc y ys)
  let ?b = "foldl (\<lambda>b y. foldl (\<lambda>b x. b[y * w + x := f x y]) b xs) buf ys"
  have len: "i < length ?b"
    using snoc.prems by (simp add: outer_fold_length)
  have hit: "(y * w \<le> i \<and> i - y * w \<in> set xs) \<longleftrightarrow> (i mod w \<in> set xs \<and> i div w = y)"
  proof
    assume a: "y * w \<le> i \<and> i - y * w \<in> set xs"
    then have lt: "i - y * w < w" using assms(2) by blast
    have i: "i = y * w + (i - y * w)" using a by simp
    show "i mod w \<in> set xs \<and> i div w = y"
      using a row_col[OF lt, of y] i by metis
  next
    assume a: "i mod w \<in> set xs \<and> i div w = y"
    then have "i = y * w + i mod w" by (metis div_mult_mod_eq)
    then show "y * w \<le> i \<and> i - y * w \<in> set xs" using a by (metis add_diff_cancel_left' le_add1)
  qed
  have "foldl (\<lambda>b y. foldl (\<lambda>b x. b[y * w + x := f x y]) b xs) buf (ys @ [y]) ! i =
        foldl (\<lambda>b x. b[y * w + x := f x y]) ?b xs ! i"
    by simp
  also have "\<dots> = (if y * w \<le> i \<and> i - y * w \<in> set xs then f (i - y * w) y else ?b ! i)"
    using inner_fold_nth[OF len, of y w "\<lambda>x. f x y" xs] by simp
  also have "\<dots> = (if i mod w \<in> set xs \<and> i div w = y then f (i mod w) y else ?b ! i)"
  proof (cases "y * w \<le> i \<and> i - y * w \<in> set xs")
    case True
    then have "i mod w \<in> set xs \<and> i div w = y" using hit by simp
    moreover have "i - y * w = i mod w"
      using True calculation by (metis add_diff_cancel_left' div_mult_mod_eq)
    ultimately show ?thesis using True by simp
  next
    case False
    with hit have nb: "\<not> (i mod w \<in> set xs \<and> i div w = y)" by blast
    show ?thesis
      unfolding if_not_P[OF False] if_not_P[OF nb] ..
  qed
  finally show ?case
    using snoc.IH[OF snoc.prems] by auto
qed

lemma interior_iff: "interior w h i \<longleftrightarrow> i mod w \<in> set [1..<w - 1] \<and> i div w \<in> set [1..<h - 1]"
  by (auto simp: interior_def)

lemma erode_pass_length: "length (erode_pass w h r) = length r"
  by (simp add: erode_pass_def outer_fold_length)

lemma dilate_pass_length: "length (dilate_pass w h r) = length r"
  by (simp add: dilate_pass_def outer_fold_length)

lemma erode_pass_nth:
  assumes "i < length r"
  shows "erode_pass w h r ! i =
     (if interior w h i then (if allWhite r w (i mod w) (i div w) then 255 else 0) else 0)"
proof -
  have b: "\<forall>x \<in> set [1..<w - 1]. x < w" by auto
  have l: "i < length (replicate (length r) (0::byte))" using assms by simp
  show ?thesis
    unfolding erode_pass_def interior_iff
    using outer_fold_nth[OF l b, of "\<lambda>x y. if allWhite r w x y then 255 else 0" "[1..<h - 1]"] assms
    by simp
qed

lemma dilate_pass_nth:
  assumes "i < length r"
  shows "dilate_pass w h r ! i =
     (if interior w h i then (if anyWhite r w (i mod w) (i div w) then 255 else 0) else 0)"
proof -
  have b: "\<forall>x \<in> set [1..<w - 1]. x < w" by auto
  have l: "i < length (replicate (length r) (0::byte))" using assms by simp
  show ?thesis
    unfolding dilate_pass_def interior_iff
    using outer_fold_nth[OF l b, of "\<lambda>x y. if anyWhite r w x y then 255 else 0" "[1..<h - 1]"] assms
    by simp
qed

lemma offsets3_set: "set offsets3 = {-1, 0, 1} \<times> {-1, 0, 1}"
  by (auto simp: offsets3_def)

lemma neighbour_in_range:
  assumes "interior w h i" "d \<in> set offsets3"
  shows "nat ((int (i div w) + snd d) * int w + (int (i mod w) + fst d)) < w * h"
proof -
  let ?x = "i mod w" and ?y = "i div w"
  have b: "1 \<le> ?x" "?x < w - 1" "1 \<le> ?y" "?y < h - 1"
    using assms(1) by (simp_all add: interior_def)
  have d: "fst d \<in> {-1, 0, 1}" "snd d \<in> {-1, 0, 1}"
    using assms(2) by (auto simp: offsets3_set)
  define x' where "x' = nat (int ?x + fst d)"
  define y' where "y' = nat (int ?y + snd d)"
  have x': "int x' = int ?x + fst d" "x' < w"
    using b d by (auto simp: x'_def)
  have y': "int y' = int ?y + snd d" "y' < h"
    using b d by (auto simp: y'_def)
  have "(int ?y + snd d) * int w + (int ?x + fst d) = int (y' * w + x')"
    using x'(1) y'(1) by simp
  then have e: "nat ((int ?y + snd d) * int w + (int ?x + fst d)) = y' * w + x'"
    by (simp only: nat_int)
  have "y' * w + x' < y' * w + w" using x'(2) by simp
  also have "\<dots> = Suc y' * w" by simp
  also have "\<dots> \<le> h * w" using y'(2) by (intro mult_le_mono1) simp
  finally have "y' * w + x' < w * h" by (simp add: mult.commute)
  then show ?thesis unfolding e .
qed

lemma allWhite_spec:
  assumes "length r = w * h" "set r \<subseteq> {0, 255}" "interior w h i"
  shows "allWhite r w (i mod w) (i div w) \<longleftrightarrow>
         list_all (\<lambda>d. neighbour r w (i mod w) (i div w) d = Some 255) offsets3"
proof -
  have "neighbour r w (i mod w) (i div w) d \<noteq> Some 0 \<longleftrightarrow>
        neighbour r w (i mod w) (i div w) d = Some 255" if "d \<in> set offsets3" for d
  proof -
    let ?k = "nat ((int (i div w) + snd d) * int w + (int (i mod w) + fst d))"
    have k: "?k < length r"
      using neighbour_in_range[OF assms(3) that] assms(1) by simp
    then have "r ! ?k \<in> set r" by simp
    then have "r ! ?k = 0 \<or> r ! ?k = 255" using assms(2) by auto
    then show ?thesis
      using k by (auto simp: neighbour_def rd_def)
  qed
  then show ?thesis
    unfolding allWhite_def list_all_iff by blast
qed

lemma erode_pass_spec:
  assumes "length r = w * h" "set r \<subseteq> {0, 255}"
  shows "erode_pass w h r = spec_erode1 w h r"
proof (rule nth_equalityI)
  show "length (erode_pass w h r) = length (spec_erode1 w h r)"
    by (simp add: erode_pass_length spec_erode1_def)
next
  fix i assume "i < length (erode_pass w h r)"
  then have i: "i < length r" by (simp add: erode_pass_length)
  show "erode_pass w h r ! i = spec_erode1 w h r ! i"
    using i allWhite_spec[OF assms, of i]
    by (simp add: erode_pass_nth spec_erode1_def)
qed

lemma dilate_pass_spec:
  assumes "zero_border w h r"
  shows "dilate_pass w h r = spec_dilate1 w h r"
proof (rule nth_equalityI)
  show "length (dilate_pass w h r) = length (spec_dilate1 w h r)"
    by (simp add: dilate_pass_length spec_dilate1_def)
next
  fix i assume "i < length (dilate_pass w h r)"
  then have i: "i < length r" by (simp add: dilate_pass_length)
  show "dilate_pass w h r ! i = spec_dilate1 w h r ! i"
    using i assms
    by (simp add: dilate_pass_nth spec_dilate1_def anyWhite_def zero_border_def)
qed

lemma erode_pass_binary: "set (erode_pass w h r) \<subseteq> {0, 255}"
proof
  fix v assume "v \<in> set (erode_pass w h r)"
  then obtain i where "i < length r" "v = erode_pass w h r ! i"
    by (auto simp: in_set_conv_nth erode_pass_length)
  then show "v \<in> {0, 255}" by (simp add: erode_pass_nth)
qed

lemma erode_pass_border: "zero_border w h (erode_pass w h r)"
  by (simp add: zero_border_def erode_pass_length erode_pass_nth)

lemma dilate_pass_border: "zero_border w h (dilate_pass w h r)"
  by (simp add: zero_border_def dilate_pass_length dilate_pass_nth)

lemma erode_loop_spec:
  assumes "length r = w * h" "set r \<subseteq> {0, 255}"
  shows "erode_loop w h n r = (spec_erode1 w h ^^ n) r"
  using assms
proof (induction n arbitrary: r)
  case 0
  then show ?case by simp
next
  case (Suc n)
  have "erode_loop w h (Suc n) r = erode_loop w h n (erode_pass w h r)" by simp
  also have "\<dots> = (spec_erode1 w h ^^ n) (erode_pass w h r)"
    using Suc.prems by (intro Suc.IH) (simp_all add: erode_pass_length erode_pass_binary)
  also have "\<dots> = (spec_erode1 w h ^^ n) (spec_erode1 w h r)"
    using Suc.prems by (simp add: erode_pass_spec)
  also have "\<dots> = (spec_erode1 w h ^^ Suc n) r"
    by (simp add: funpow_swap1)
  finally show ?case .
qed

lemma erode_loop_border:
  "zero_border w h r \<Longrightarrow> zero_border w h (erode_loop w h n r)"
  by (induction n arbitrary: r) (simp_all add: erode_pass_border)

lemma dilate_loop_spec:
  assumes "zero_border w h r"
  shows "dilate_loop w h n r = (spec_dilate1 w h ^^ n) r"
  using assms
proof (induction n arbitrary: r)
  case 0
  then show ?case by simp
next
  case (Suc n)
  have "dilate_loop w h (Suc n) r = dilate_loop w h n (dilate_pass w h r)" by simp
  also have "\<dots> = (spec_dilate1 w h ^^ n) (dilate_pass w h r)"
    by (intro Suc.IH) (rule dilate_pass_border)
  also have "\<dots> = (spec_dilate1 w h ^^ n) (spec_dilate1 w h r)"
    using Suc.prems by (simp add: dilate_pass_spec)
  also have "\<dots> = (spec_dilate1 w h ^^ Suc n) r"
    by (simp add: funpow_swap1)
  finally show ?case .
qed

lemma clean_loops:
  assumes "length bin = w * h" "set bin \<subseteq> {0, 255}"
  shows "dilate_loop w h n (erode_loop w h n bin) = (spec_dilate w h n \<circ> spec_erode w h n) bin"
proof (cases n)
  case 0
  then show ?thesis by (simp add: spec_dilate_def spec_erode_def)
next
  case (Suc m)
  have "zero_border w h (erode_loop w h (Suc m) bin)"
    using erode_loop_border[OF erode_pass_border, of w h m bin] by simp
  then have "dilate_loop w h n (erode_loop w h n bin) =
             (spec_dilate1 w h ^^ n) (erode_loop w h n bin)"
    unfolding Suc by (rule dilate_loop_spec)
  then show ?thesis
    using erode_loop_spec[OF assms, of n] by (simp add: spec_dilate_def spec_erode_def)
qed

text \<open>
  Claim C4, as the program has it. For every binary image of \<open>w\<close> by \<open>h\<close> pixels and every
  iteration count \<open>n\<close> (2 when none is passed), \<open>morphologyClean\<close> erodes \<open>n\<close> times first
  and dilates \<open>n\<close> times after that: it equals \<open>dilate (n) \<circ> erode (n)\<close>, with erosion and
  dilation by a 3 by 3 square, erosion setting the border pixels to 0 and dilation leaving
  them as they are. In the code each pass, of erosion and of dilation, writes 0 on the
  border; inside \<open>morphologyClean\<close> the dilation passes meet a border that erosion has
  already set to 0.
\<close>

theorem morphologyClean_order:
  assumes "length bin = w * h" "set bin \<subseteq> {0, 255}"
  shows "morphologyClean bin w h (Some n) = (spec_dilate w h n \<circ> spec_erode w h n) bin \<and>
         morphologyClean bin w h None = (spec_dilate w h 2 \<circ> spec_erode w h 2) bin \<and>
         (\<forall>i < length bin. \<not> interior w h i \<longrightarrow>
            erode_pass w h bin ! i = 0 \<and> dilate_pass w h bin ! i = 0)"
  using clean_loops[OF assms]
  by (simp add: morphologyClean_def erode_pass_nth dilate_pass_nth)

text \<open>
  Claim C4 as stated, \<open>erode (n) \<circ> dilate (n)\<close>, fails on a 5 by 5 image with one white
  pixel in the middle and \<open>n = 1\<close>: \<open>morphologyClean\<close> erases the pixel, whereas dilating
  first and eroding after gives the image back.
\<close>

theorem morphologyClean_not_erode_after_dilate:
  "length lone_pixel = 5 * 5 \<and> set lone_pixel \<subseteq> {0, 255} \<and>
   morphologyClean lone_pixel 5 5 (Some 1) = replicate 25 0 \<and>
   (spec_erode 5 5 1 \<circ> spec_dilate 5 5 1) lone_pixel = lone_pixel \<and>
   morphologyClean lone_pixel 5 5 (Some 1) \<noteq> (spec_erode 5 5 1 \<circ> spec_dilate 5 5 1) lone_pixel"
  by code_simp

theorem morphologyClean_order_witness:
  "length lone_pixel = 5 * 5 \<and> set lone_pixel \<subseteq> {0, 255} \<and>
   (spec_dilate 5 5 1 \<circ> spec_erode 5 5 1) lone_pixel = replicate 25 0"
proof -
  have l: "length lone_pixel = 5 * 5" by (simp add: lone_pixel_def)
  have b: "set lone_pixel \<subseteq> {0, 255}" by (simp add: lone_pixel_def)
  have e: "morphologyClean lone_pixel 5 5 (Some 1) = replicate 25 0" by code_simp
  from morphologyClean_order[OF l b, of 1] e l b show ?thesis
    by simp
qed

section \<open>The running mean of the background\<close>















end
